theory Spec2Isabelle
  imports Main "HOL-Library.Word" "HOL-Library.Char_ord" "HOL-Library.List_Lexorder"
    "HOL-Library.Sublist" "HOL-Library.Multiset"
begin

section \<open>Timestamps and their RFC 3339 rendering\<close>

text \<open>
  The program only builds, shifts and prints \<^verbatim>\<open>time.Time\<close> values
  (\<^verbatim>\<open>time.Now().Add(-192 * time.Hour)\<close>, \<^verbatim>\<open>ts.Format(time.RFC3339)\<close>).
  A time is an instant (seconds since 1970-01-01T00:00:00Z and the nanoseconds within that
  second) together with its location. A location (\<^verbatim>\<open>*time.Location\<close>: \<^verbatim>\<open>time.UTC\<close>, a fixed
  zone, or \<^verbatim>\<open>time.Local\<close> with its changes between winter and summer time) gives for every
  instant, as a count of seconds since 1970, the offset in seconds east of UTC in force
  then.
\<close>

record Time =
  sec :: int
  nsec :: int
  location :: "int \<Rightarrow> int"

text \<open>The offset in force at the time in its location (the second result of \<^verbatim>\<open>t.Zone()\<close>).\<close>

definition offset :: "Time \<Rightarrow> int" where
  "offset t = location t (sec t)"

text \<open>\<^verbatim>\<open>t.In(loc)\<close>: the same instant in another location.\<close>

definition In :: "Time \<Rightarrow> (int \<Rightarrow> int) \<Rightarrow> Time" where
  "In t loc = t\<lparr>location := loc\<rparr>"

text \<open>
  \<^verbatim>\<open>t.Add(d)\<close> with \<open>d\<close> in nanoseconds: the location is kept, so the offset of the
  result is the one in force at the new instant. Go splits \<open>d\<close> with
  truncating division and carries into the seconds; for \<open>0 \<le> nsec t < 10\<^sup>9\<close> that is the
  floor division written here.
\<close>

definition Add :: "Time \<Rightarrow> int \<Rightarrow> Time" where
  "Add t d = t\<lparr>sec := sec t + (nsec t + d) div 1000000000,
               nsec := (nsec t + d) mod 1000000000\<rparr>"

definition Hour :: int where
  "Hour = 3600 * 1000000000"

text \<open>\<^verbatim>\<open>t.Before(u)\<close>: comparison of the instants, whatever the locations.\<close>

definition Before :: "Time \<Rightarrow> Time \<Rightarrow> bool" where
  "Before t u \<longleftrightarrow> sec t < sec u \<or> (sec t = sec u \<and> nsec t < nsec u)"

subsection \<open>The proleptic Gregorian calendar\<close>

definition isLeap :: "int \<Rightarrow> bool" where
  "isLeap y \<longleftrightarrow> y mod 4 = 0 \<and> (y mod 100 \<noteq> 0 \<or> y mod 400 = 0)"

text \<open>Days from 1970-01-01 to the first of January of year \<open>y\<close>.\<close>

definition days_before_year :: "int \<Rightarrow> int" where
  "days_before_year y =
     365 * y + (y - 1) div 4 - (y - 1) div 100 + (y - 1) div 400 - 719527"

definition daysBefore :: "int list" where
  "daysBefore = [0, 31, 59, 90, 120, 151, 181, 212, 243, 273, 304, 334, 365]"

text \<open>Days of year \<open>y\<close> that precede its month \<open>m\<close> (January is 1).\<close>

definition days_before_month :: "int \<Rightarrow> int \<Rightarrow> int" where
  "days_before_month y m =
     daysBefore ! nat (m - 1) + (if isLeap y \<and> 2 < m then 1 else 0)"

definition days_from_civil :: "int \<Rightarrow> int \<Rightarrow> int \<Rightarrow> int" where
  "days_from_civil y m d = days_before_year y + days_before_month y m + d - 1"

lemma div_pred:
  fixes y k :: int
  assumes "0 < k"
  shows "(y - 1) div k = (if y mod k = 0 then y div k - 1 else y div k)"
proof (cases "y mod k = 0")
  case True
  have "y - 1 = k * (y div k - 1) + (k - 1)"
    using True by (simp add: algebra_simps) (metis mult.commute div_mult_mod_eq add.right_neutral)
  then have "(y - 1) div k = y div k - 1"
    using assms by (intro int_div_pos_eq [where r = "k - 1"]) auto
  with True show ?thesis by simp
next
  case False
  have "0 \<le> y mod k" "y mod k < k" using assms by auto
  with False have r: "0 \<le> y mod k - 1" "y mod k - 1 < k" by auto
  have "y - 1 = k * (y div k) + (y mod k - 1)"
    by (simp add: algebra_simps)
  then have "(y - 1) div k = y div k"
    using r by (intro int_div_pos_eq [where r = "y mod k - 1"]) auto
  with False show ?thesis by simp
qed

lemma mod_400_100: "(y::int) mod 400 = 0 \<Longrightarrow> y mod 100 = 0"
  by auto

lemma mod_100_4: "(y::int) mod 100 = 0 \<Longrightarrow> y mod 4 = 0"
  by auto

lemma days_before_year_Suc:
  "days_before_year (y + 1) = days_before_year y + (if isLeap y then 366 else 365)"
  using mod_400_100 [of y] mod_100_4 [of y]
  by (simp add: days_before_year_def isLeap_def
      div_pred [of 4 y] div_pred [of 100 y] div_pred [of 400 y])

lemma days_before_year_400: "days_before_year (400 * e) = 146097 * e - 719528"
  by (simp add: days_before_year_def
      div_pred [of 4 "400 * e"] div_pred [of 100 "400 * e"] div_pred [of 400 "400 * e"])

text \<open>
  The year of day number \<open>n\<close>: start at the first year of the 400-year cycle that holds
  \<open>n\<close> and walk forward while the next first of January is not after \<open>n\<close>.
\<close>

function year_from :: "int \<Rightarrow> int \<Rightarrow> int" where
  "year_from y n = (if days_before_year (y + 1) \<le> n then year_from (y + 1) n else y)"
  by pat_completeness auto
termination
  by (relation "measure (\<lambda>(y, n). nat (n - days_before_year y))")
    (auto simp: days_before_year_Suc split: if_splits)

declare year_from.simps [simp del]

definition year_of_day :: "int \<Rightarrow> int" where
  "year_of_day n = year_from (400 * ((n + 719528) div 146097)) n"

function month_from :: "int \<Rightarrow> int \<Rightarrow> int \<Rightarrow> int" where
  "month_from y m yd =
     (if m < 12 \<and> days_before_month y (m + 1) \<le> yd then month_from y (m + 1) yd else m)"
  by pat_completeness auto
termination
  by (relation "measure (\<lambda>(y, m, yd). nat (12 - m))") auto

declare month_from.simps [simp del]

definition civil_from_days :: "int \<Rightarrow> int \<times> int \<times> int" where
  "civil_from_days n =
     (let y = year_of_day n;
          yd = n - days_before_year y;
          m = month_from y 1 yd
      in (y, m, yd - days_before_month y m + 1))"

text \<open>
  \<^verbatim>\<open>time.Date(y, m, d, hh, mm, ss, ns, time.FixedZone("", off))\<close> for fields that are in
  range (Go normalises the others): the instant at which the clock of the fixed zone reads
  these fields, in that zone.
\<close>

definition Date :: "int \<Rightarrow> int \<Rightarrow> int \<Rightarrow> int \<Rightarrow> int \<Rightarrow> int \<Rightarrow> int \<Rightarrow> int \<Rightarrow> Time" where
  "Date y m d hh mm ss ns off =
     \<lparr>sec = days_from_civil y m d * 86400 + hh * 3600 + mm * 60 + ss - off,
      nsec = ns, location = (\<lambda>s. off)\<rparr>"

subsection \<open>Printing\<close>

definition digit :: "nat \<Rightarrow> char" where
  "digit d = char_of (48 + d)"

function digits :: "nat \<Rightarrow> string" where
  "digits u = (if u < 10 then [digit u] else digits (u div 10) @ [digit (u mod 10)])"
  by pat_completeness auto
termination
  by (relation "measure id") auto

declare digits.simps [simp del]

text \<open>
  \<^verbatim>\<open>appendInt(b, x, width)\<close> of package time: the decimal form of \<open>x\<close>, a minus sign first
  when \<open>x\<close> is negative, zero-padded to \<open>width\<close> digits and never truncated.
\<close>

definition appendInt :: "int \<Rightarrow> nat \<Rightarrow> string" where
  "appendInt x width =
     (let ds = digits (nat \<bar>x\<bar>)
      in (if x < 0 then ''-'' else []) @ replicate (width - length ds) CHR ''0'' @ ds)"

text \<open>Go's integer division truncates towards zero.\<close>

definition tdiv :: "int \<Rightarrow> int \<Rightarrow> int" where
  "tdiv a b = sgn a * sgn b * (\<bar>a\<bar> div \<bar>b\<bar>)"

text \<open>The layout element \<^verbatim>\<open>Z07:00\<close>: \<^verbatim>\<open>Z\<close> for offset 0, else sign, hours and minutes.\<close>

definition format_zone :: "int \<Rightarrow> string" where
  "format_zone off =
     (if off = 0 then ''Z''
      else let zone = tdiv off 60
           in (if zone < 0 then ''-'' else ''+'') @
              appendInt (\<bar>zone\<bar> div 60) 2 @ '':'' @ appendInt (\<bar>zone\<bar> mod 60) 2)"

text \<open>\<^verbatim>\<open>Clock\<close>: hour, minute and second within the day of a count of seconds.\<close>

definition Clock :: "int \<Rightarrow> int \<times> int \<times> int" where
  "Clock l = (let c = l mod 86400 in (c div 3600, c mod 3600 div 60, c mod 60))"

text \<open>
  \<^verbatim>\<open>t.Format(time.RFC3339)\<close>, layout \<^verbatim>\<open>2006-01-02T15:04:05Z07:00\<close>: the calendar date and
  the clock of the location, whole seconds only, then the zone.
\<close>

definition Format_RFC3339 :: "Time \<Rightarrow> string" where
  "Format_RFC3339 t =
     (let l = sec t + offset t;
          (y, m, d) = civil_from_days (l div 86400);
          (hh, mm, ss) = Clock l
      in appendInt y 4 @ ''-'' @ appendInt m 2 @ ''-'' @ appendInt d 2 @ ''T'' @
         appendInt hh 2 @ '':'' @ appendInt mm 2 @ '':'' @ appendInt ss 2 @
         format_zone (offset t))"

section \<open>Article identity\<close>

datatype error =
  NilDereference
  | GofeedParse
  | FeedsAdd
  | NoMatchingSubscription
  | NilMapAssignment
  | UnmarshalType

type_synonym ArticleKey = string

text \<open>
  \<^verbatim>\<open>NewArticleKey(title, ts, up)\<close>. The two timestamps are pointers: \<open>None\<close> is
  \<^verbatim>\<open>nil\<close>, and formatting through a nil pointer panics.
\<close>

definition NewArticleKey :: "string \<Rightarrow> Time option \<Rightarrow> Time option \<Rightarrow> error + ArticleKey" where
  "NewArticleKey title ts up =
     (let ts' = (if up \<noteq> None then up else ts)
      in case ts' of
           None \<Rightarrow> Inl NilDereference
         | Some t \<Rightarrow> Inr (Format_RFC3339 t @ ''-'' @ title))"

text \<open>The effective timestamp in the words of the specification: updated if present, else
  published.\<close>

definition effective_timestamp :: "Time option \<Rightarrow> Time option \<Rightarrow> Time option" where
  "effective_timestamp published updated =
     (case updated of Some u \<Rightarrow> Some u | None \<Rightarrow> published)"

section \<open>Seen sets\<close>

type_synonym ChatID = "64 word"

type_synonym Seen = "ArticleKey set"

text \<open>\<^verbatim>\<open>map[int64]Seen\<close>: an absent entry reads as the nil set.\<close>

type_synonym Seens = "ChatID \<rightharpoonup> Seen"

definition seen_of :: "Seens \<Rightarrow> ChatID \<Rightarrow> Seen" where
  "seen_of s cid = (case s cid of None \<Rightarrow> {} | Some S \<Rightarrow> S)"

definition CheckSeen :: "Seens \<Rightarrow> ChatID \<Rightarrow> Seens" where
  "CheckSeen s cid = (case s cid of None \<Rightarrow> s(cid \<mapsto> {}) | Some _ \<Rightarrow> s)"

text \<open>
  \<^verbatim>\<open>MarkSeen\<close> allocates the set of the channel when it is nil, tests, inserts when the test
  fails, and returns the test; the model returns the store after the call with it.
\<close>

definition MarkSeen :: "Seens \<Rightarrow> ChatID \<Rightarrow> ArticleKey \<Rightarrow> bool \<times> Seens" where
  "MarkSeen s cid a =
     (let s1 = (case s cid of None \<Rightarrow> s(cid \<mapsto> {}) | Some _ \<Rightarrow> s);
          ok = (a \<in> seen_of s1 cid)
      in (ok, if \<not> ok then s1(cid \<mapsto> insert a (seen_of s1 cid)) else s1))"

section \<open>The subscription registry\<close>

record Feed =
  Chats :: "ChatID set"
  Title :: string

text \<open>
  \<^verbatim>\<open>map[string]*Feed\<close>: every entry points to a feed of its own (\<^verbatim>\<open>New\<close> allocates one per
  url and nothing else stores a pointer), so updating the feed behind \<^verbatim>\<open>f[url]\<close> is updating
  the entry.
\<close>

type_synonym Feeds = "string \<rightharpoonup> Feed"

definition NewFeed :: "string \<Rightarrow> Feed" where
  "NewFeed title = \<lparr>Chats = {}, Title = title\<rparr>"

definition Feed_Add :: "Feed \<Rightarrow> ChatID \<Rightarrow> Feed" where
  "Feed_Add f cid = f\<lparr>Chats := insert cid (Chats f)\<rparr>"

definition Feed_Rm :: "Feed \<Rightarrow> ChatID \<Rightarrow> Feed" where
  "Feed_Rm f cid = f\<lparr>Chats := Chats f - {cid}\<rparr>"

text \<open>What \<^verbatim>\<open>gofeed\<close> hands back for a URL: a title and the items in document order.\<close>

record Item =
  Item_Title :: string
  PublishedParsed :: "Time option"
  UpdatedParsed :: "Time option"
  Link :: string

record Parsed =
  Parsed_Title :: string
  Items :: "Item list"

text \<open>
  \<^verbatim>\<open>gofeed.NewParser().ParseURL(url)\<close> is the network: a parameter of the model, \<open>None\<close> when
  it returns an error. A Go \<^verbatim>\<open>error\<close> result is an \<open>error option\<close>, \<open>None\<close> for nil, returned
  with the registry after the call.
\<close>

definition Feeds_New :: "(string \<Rightarrow> Parsed option) \<Rightarrow> Feeds \<Rightarrow> string \<Rightarrow> error option \<times> Feeds" where
  "Feeds_New ParseURL f url =
     (case ParseURL url of
        None \<Rightarrow> (Some GofeedParse, f)
      | Some feed \<Rightarrow> (None, f(url \<mapsto> NewFeed (Parsed_Title feed))))"

definition Feeds_Add ::
  "(string \<Rightarrow> Parsed option) \<Rightarrow> Feeds \<Rightarrow> string \<Rightarrow> ChatID \<Rightarrow> error option \<times> Feeds" where
  "Feeds_Add ParseURL f url cid =
     (let (err, f1) = (if f url = None then Feeds_New ParseURL f url else (None, f))
      in case err of
           Some e \<Rightarrow> (Some FeedsAdd, f1)
         | None \<Rightarrow>
             (case f1 url of
                None \<Rightarrow> (Some NilDereference, f1)
              | Some feed \<Rightarrow> (None, f1(url \<mapsto> Feed_Add feed cid))))"

text \<open>
  \<^verbatim>\<open>strings.Contains\<close>: the second string is a run of consecutive bytes of the first.
\<close>

fun Contains :: "string \<Rightarrow> string \<Rightarrow> bool" where
  "Contains [] substr = (substr = [])"
| "Contains (c # s) substr = (prefix substr (c # s) \<or> Contains s substr)"

text \<open>
  \<^verbatim>\<open>Rm\<close>. \<^verbatim>\<open>strings.ToLower\<close> maps every Unicode letter of a UTF-8 string to its lower
  case, by the tables of package \<^verbatim>\<open>unicode\<close>: it is a parameter of the model, \<open>ToLower\<close>.
  The loop \<^verbatim>\<open>for u, feed := range f\<close> visits the keys in an order Go does not fix: the
  order of this run is the list \<open>order\<close>, and the loop is \<open>Rm_range\<close>, called with the
  lower-cased query.
\<close>

fun Rm_range ::
  "(string \<Rightarrow> string) \<Rightarrow> Feeds \<Rightarrow> string \<Rightarrow> ChatID \<Rightarrow> string list \<Rightarrow> error option \<times> Feeds" where
  "Rm_range ToLower f title cid [] = (Some NoMatchingSubscription, f)"
| "Rm_range ToLower f title cid (u # us) =
     (case f u of
        None \<Rightarrow> Rm_range ToLower f title cid us
      | Some feed \<Rightarrow>
          if Contains (ToLower (Title feed)) title then (None, f(u \<mapsto> Feed_Rm feed cid))
          else Rm_range ToLower f title cid us)"

definition Feeds_Rm ::
  "(string \<Rightarrow> string) \<Rightarrow> string list \<Rightarrow> Feeds \<Rightarrow> string \<Rightarrow> string \<Rightarrow> ChatID \<Rightarrow>
     error option \<times> Feeds" where
  "Feeds_Rm ToLower order f url title cid =
     (case (if url \<noteq> [] then f url else None) of
        Some feed \<Rightarrow> (None, f(url \<mapsto> Feed_Rm feed cid))
      | None \<Rightarrow> Rm_range ToLower f (ToLower title) cid order)"

text \<open>
  The title of feed \<open>u\<close> contains the query, letter case aside: after \<^verbatim>\<open>strings.ToLower\<close> on
  both.
\<close>

definition title_matches :: "(string \<Rightarrow> string) \<Rightarrow> Feeds \<Rightarrow> string \<Rightarrow> string \<Rightarrow> bool" where
  "title_matches ToLower f query u =
     (case f u of None \<Rightarrow> False | Some feed \<Rightarrow> Contains (ToLower (Title feed)) (ToLower query))"

text \<open>
  What \<^verbatim>\<open>strings.ToLower\<close> does to a string of ASCII only: the bytes \<^verbatim>\<open>A\<close> to \<^verbatim>\<open>Z\<close> go to
  \<^verbatim>\<open>a\<close> to \<^verbatim>\<open>z\<close>. It stands for \<^verbatim>\<open>strings.ToLower\<close> in the examples, whose strings are
  ASCII.
\<close>

definition lower_byte :: "char \<Rightarrow> char" where
  "lower_byte c = (if CHR ''A'' \<le> c \<and> c \<le> CHR ''Z'' then char_of (of_char c + (32 :: nat)) else c)"

definition ToLower_ASCII :: "string \<Rightarrow> string" where
  "ToLower_ASCII s = map lower_byte s"

section \<open>The poll cycle\<close>

text \<open>
  The queue \<^verbatim>\<open>q\<close> of \<^verbatim>\<open>update\<close> holds pairs of a key and its item; a message is the
  channel and the text \<^verbatim>\<open>tapi.NewMessage\<close> was given.
\<close>

type_synonym queue = "(ArticleKey \<times> Item) list"

type_synonym Message = "ChatID \<times> string"

definition item_key :: "Item \<Rightarrow> error + ArticleKey" where
  "item_key it = NewArticleKey (Item_Title it) (PublishedParsed it) (UpdatedParsed it)"

text \<open>
  The loop over \<^verbatim>\<open>f.Items\<close> for one channel: the queue and the seen sets are threaded
  through, and a panic of \<^verbatim>\<open>NewArticleKey\<close> ends it.
\<close>

fun items_loop ::
  "ArticleKey \<Rightarrow> ChatID \<Rightarrow> Item list \<Rightarrow> queue \<times> Seens \<Rightarrow> error + queue \<times> Seens" where
  "items_loop ts cid [] (q, s) = Inr (q, s)"
| "items_loop ts cid (it # its) (q, s) =
     (case item_key it of
        Inl e \<Rightarrow> Inl e
      | Inr a \<Rightarrow>
          (case MarkSeen s cid a of
             (seen, s') \<Rightarrow>
               items_loop ts cid its (if \<not> seen \<and> ts < a then q @ [(a, it)] else q, s')))"

text \<open>
  \<^verbatim>\<open>sort.Slice(q, func(i, j) bool { return q[i].a < q[j].a })\<close>. Go's sort is not stable;
  the keys of a queue are pairwise distinct (\<open>items_loop_queue\<close> below), so every sort
  returns the list that the insertion sort returns (\<open>sort_key_distinct_unique\<close>).
\<close>

definition sort_Slice :: "queue \<Rightarrow> queue" where
  "sort_Slice q = sort_key fst q"

text \<open>One channel of one feed: collect, sort, send.\<close>

definition chat_step ::
  "ArticleKey \<Rightarrow> Item list \<Rightarrow> ChatID \<Rightarrow> Message list \<times> Seens \<Rightarrow> error + Message list \<times> Seens" where
  "chat_step ts items cid st =
     (case st of (sends, s) \<Rightarrow>
        (case items_loop ts cid items ([], s) of
           Inl e \<Rightarrow> Inl e
         | Inr (q, s') \<Rightarrow> Inr (sends @ map (\<lambda>(a, it). (cid, Link it)) (sort_Slice q), s')))"

fun chats_loop ::
  "ArticleKey \<Rightarrow> Item list \<Rightarrow> ChatID list \<Rightarrow> Message list \<times> Seens \<Rightarrow> error + Message list \<times> Seens" where
  "chats_loop ts items [] st = Inr st"
| "chats_loop ts items (cid # cids) st =
     (case chat_step ts items cid st of
        Inl e \<Rightarrow> Inl e
      | Inr st' \<Rightarrow> chats_loop ts items cids st')"

text \<open>
  The task of one feed: a failed fetch ends it with nothing changed. \<open>range_Chats\<close> is the
  order in which \<^verbatim>\<open>for cid := range feed.Chats\<close> visits the subscribers.
\<close>

definition feed_task ::
  "(string \<Rightarrow> Parsed option) \<Rightarrow> (Feed \<Rightarrow> ChatID list) \<Rightarrow> ArticleKey \<Rightarrow> string \<Rightarrow> Feed \<Rightarrow>
     Message list \<times> Seens \<Rightarrow> error + Message list \<times> Seens" where
  "feed_task ParseURL range_Chats ts url feed st =
     (case ParseURL url of
        None \<Rightarrow> Inr st
      | Some f \<Rightarrow> chats_loop ts (Items f) (range_Chats feed) st)"

text \<open>
  The tasks of one cycle run concurrently and share the channel \<^verbatim>\<open>sends\<close>. The model runs
  them to completion one after the other in the order \<open>order\<close>, which is one of the
  schedules the program has; the messages are listed in the order they enter \<^verbatim>\<open>sends\<close>.
\<close>

fun feeds_loop ::
  "(string \<Rightarrow> Parsed option) \<Rightarrow> (Feed \<Rightarrow> ChatID list) \<Rightarrow> ArticleKey \<Rightarrow> Feeds \<Rightarrow> string list \<Rightarrow>
     Message list \<times> Seens \<Rightarrow> error + Message list \<times> Seens" where
  "feeds_loop ParseURL range_Chats ts f [] st = Inr st"
| "feeds_loop ParseURL range_Chats ts f (url # urls) st =
     (case f url of
        None \<Rightarrow> feeds_loop ParseURL range_Chats ts f urls st
      | Some feed \<Rightarrow>
          (case feed_task ParseURL range_Chats ts url feed st of
             Inl e \<Rightarrow> Inl e
           | Inr st' \<Rightarrow> feeds_loop ParseURL range_Chats ts f urls st'))"

text \<open>The cutoff key: \<^verbatim>\<open>NewArticleKey("", &t, nil)\<close> for \<^verbatim>\<open>t := now.Add(-192 * time.Hour)\<close>.\<close>

definition cutoff :: "Time \<Rightarrow> error + ArticleKey" where
  "cutoff now = NewArticleKey [] (Some (Add now (- 192 * Hour))) None"

definition update ::
  "(string \<Rightarrow> Parsed option) \<Rightarrow> (Feed \<Rightarrow> ChatID list) \<Rightarrow> string list \<Rightarrow> Time \<Rightarrow> Feeds \<Rightarrow> Seens \<Rightarrow>
     error + Message list \<times> Seens" where
  "update ParseURL range_Chats order now f s =
     (case cutoff now of
        Inl e \<Rightarrow> Inl e
      | Inr ts \<Rightarrow> feeds_loop ParseURL range_Chats ts f order ([], s))"

section \<open>Persistence of the seen sets (the variant with its own JSON methods)\<close>

text \<open>
  The second source file gives \<^verbatim>\<open>Seen\<close> the methods \<^verbatim>\<open>Seen\<close>, \<^verbatim>\<open>Mark\<close>, \<^verbatim>\<open>MarshalJSON\<close> and
  \<^verbatim>\<open>UnmarshalJSON\<close>, all with the value receiver \<^verbatim>\<open>us Seen\<close>. There a seen set is a Go map
  that may be nil: \<open>None\<close> is the nil map, which reads as empty and panics on assignment.
\<close>

text \<open>
  A JSON value; \<open>JString\<close> holds the string that the text between the quotes denotes, as bytes
  of UTF-8.
\<close>

datatype json = JNull | JString string | JArray "json list" | JObject "(string \<times> json) list"

definition Seen_Seen :: "Seen option \<Rightarrow> ArticleKey \<Rightarrow> bool" where
  "Seen_Seen us a = (case us of None \<Rightarrow> False | Some S \<Rightarrow> a \<in> S)"

definition Seen_Mark :: "Seen option \<Rightarrow> ArticleKey \<Rightarrow> error + Seen option" where
  "Seen_Mark us a = (case us of None \<Rightarrow> Inl NilMapAssignment | Some S \<Rightarrow> Inr (Some (insert a S)))"

text \<open>
  \<^verbatim>\<open>utf8.DecodeRuneInString\<close> on a string that is not empty, as far as its size result goes:
  the table \<^verbatim>\<open>first\<close> gives for the first byte the length of the sequence and the range of the
  second byte; \<open>None\<close> is the result \<^verbatim>\<open>(RuneError, 1)\<close> of a byte that starts no well-formed
  sequence.
\<close>

definition first_byte :: "nat \<Rightarrow> (nat \<times> nat \<times> nat) option" where
  "first_byte b =
     (if b < 0x80 then Some (1, 0, 0)
      else if b < 0xC2 then None
      else if b \<le> 0xDF then Some (2, 0x80, 0xBF)
      else if b = 0xE0 then Some (3, 0xA0, 0xBF)
      else if b = 0xED then Some (3, 0x80, 0x9F)
      else if b \<le> 0xEF then Some (3, 0x80, 0xBF)
      else if b = 0xF0 then Some (4, 0x90, 0xBF)
      else if b \<le> 0xF3 then Some (4, 0x80, 0xBF)
      else if b = 0xF4 then Some (4, 0x80, 0x8F)
      else None)"

definition byte_in :: "nat \<Rightarrow> nat \<Rightarrow> char \<Rightarrow> bool" where
  "byte_in lo hi c = (lo \<le> of_char c \<and> (of_char c :: nat) \<le> hi)"

definition DecodeRuneInString_size :: "string \<Rightarrow> nat option" where
  "DecodeRuneInString_size s =
     (case first_byte (of_char (hd s)) of
        None \<Rightarrow> None
      | Some (sz, lo, hi) \<Rightarrow>
          if sz = 1 then Some 1
          else if length s < sz then None
          else if \<not> byte_in lo hi (s ! 1) then None
          else if sz \<le> 2 then Some 2
          else if \<not> byte_in 0x80 0xBF (s ! 2) then None
          else if sz \<le> 3 then Some 3
          else if \<not> byte_in 0x80 0xBF (s ! 3) then None
          else Some 4)"

text \<open>
  The string that \<^verbatim>\<open>json.Marshal\<close> writes for a Go string: the encoder walks the bytes, keeps
  every well-formed sequence and writes \<^verbatim>\<open>\ufffd\<close>, the three bytes EF BF BD, for every byte
  that starts none. The first argument counts the bytes still to copy of the sequence the
  walk is in.
\<close>

fun encode_string :: "nat \<Rightarrow> string \<Rightarrow> string" where
  "encode_string k [] = []"
| "encode_string k (c # cs) =
     (if 0 < k then c # encode_string (k - 1) cs
      else case DecodeRuneInString_size (c # cs) of
             None \<Rightarrow> CHR 0xEF # CHR 0xBF # CHR 0xBD # encode_string 0 cs
           | Some sz \<Rightarrow> c # encode_string (sz - 1) cs)"

text \<open>
  \<^verbatim>\<open>MarshalJSON\<close>: the keys, in the order \<open>order\<close> in which \<^verbatim>\<open>for a := range us\<close> visits them,
  as a JSON array of strings.
\<close>

definition Seen_MarshalJSON :: "ArticleKey list \<Rightarrow> Seen option \<Rightarrow> json" where
  "Seen_MarshalJSON order us =
     JArray (map (\<lambda>a. JString (encode_string 0 a)) [a \<leftarrow> order. Seen_Seen us a])"

text \<open>\<^verbatim>\<open>json.Unmarshal(data, &arr)\<close> for \<^verbatim>\<open>arr []ArticleKey\<close>.\<close>

fun unmarshal_string :: "json \<Rightarrow> error + string" where
  "unmarshal_string (JString x) = Inr x"
| "unmarshal_string JNull = Inr []"
| "unmarshal_string _ = Inl UnmarshalType"

fun unmarshal_strings :: "json list \<Rightarrow> error + string list" where
  "unmarshal_strings [] = Inr []"
| "unmarshal_strings (x # xs) =
     (case unmarshal_string x of
        Inl e \<Rightarrow> Inl e
      | Inr a \<Rightarrow> (case unmarshal_strings xs of Inl e \<Rightarrow> Inl e | Inr as \<Rightarrow> Inr (a # as)))"

fun unmarshal_arr :: "json \<Rightarrow> error + ArticleKey list" where
  "unmarshal_arr (JArray xs) = unmarshal_strings xs"
| "unmarshal_arr JNull = Inr []"
| "unmarshal_arr _ = Inl UnmarshalType"

text \<open>The loop \<^verbatim>\<open>for _, a := range arr { us[a] = struct{}{} }\<close> on the receiver.\<close>

fun mark_all :: "Seen option \<Rightarrow> ArticleKey list \<Rightarrow> error + Seen option" where
  "mark_all us [] = Inr us"
| "mark_all us (a # as) =
     (case Seen_Mark us a of Inl e \<Rightarrow> Inl e | Inr us' \<Rightarrow> mark_all us' as)"

definition Seen_UnmarshalJSON :: "Seen option \<Rightarrow> json \<Rightarrow> error + Seen option" where
  "Seen_UnmarshalJSON us data =
     (case unmarshal_arr data of Inl e \<Rightarrow> Inl e | Inr arr \<Rightarrow> mark_all us arr)"

text \<open>
  Decoding the object of \<^verbatim>\<open>Seens\<close>, package \<^verbatim>\<open>encoding/json\<close> makes for every member a new
  zero value of the element type, here the nil map, and since the type has the method
  hands the member's text to \<^verbatim>\<open>UnmarshalJSON\<close> on that value.
\<close>

definition decode_Seen :: "json \<Rightarrow> error + Seen option" where
  "decode_Seen data = Seen_UnmarshalJSON None data"

section \<open>Definitions used in the statements and proofs\<close>

text \<open>The day within its year of day number \<open>n\<close>, from 0.\<close>

definition year_day :: "int \<Rightarrow> int" where
  "year_day n = n - days_before_year (year_of_day n)"

text \<open>The last \<open>w\<close> decimal digits of \<open>n\<close>.\<close>

fun padn :: "nat \<Rightarrow> nat \<Rightarrow> string" where
  "padn 0 n = []"
| "padn (Suc w) n = padn w (n div 10) @ [digit (n mod 10)]"

text \<open>The nineteen characters of date and clock for a count of seconds of the location.\<close>

definition stamp :: "int \<Rightarrow> string" where
  "stamp l =
     (let (y, m, d) = civil_from_days (l div 86400);
          (hh, mm, ss) = Clock l
      in padn 4 (nat y) @ ''-'' @ padn 2 (nat m) @ ''-'' @ padn 2 (nat d) @ ''T'' @
         padn 2 (nat hh) @ '':'' @ padn 2 (nat mm) @ '':'' @ padn 2 (nat ss))"

text \<open>The clock of the location reads a year from 0 to 9999: the years that print with four digits.\<close>

definition years_0_to_9999 :: "Time \<Rightarrow> bool" where
  "years_0_to_9999 t \<longleftrightarrow>
     - 62167219200 \<le> sec t + offset t \<and> sec t + offset t < 253402300800"

text \<open>The keys of the items of a feed.\<close>

definition keys_of :: "Item list \<Rightarrow> ArticleKey set" where
  "keys_of items = {a. \<exists>it \<in> set items. item_key it = Inr a}"

text \<open>
  Item \<open>i\<close> of the feed is the first to carry its key, a key that is not in the set \<open>S\<close> and
  sorts strictly after \<open>ts\<close>.
\<close>

definition first_new :: "ArticleKey \<Rightarrow> Seen \<Rightarrow> Item list \<Rightarrow> nat \<Rightarrow> bool" where
  "first_new ts S items i =
     (case item_key (items ! i) of
        Inl e \<Rightarrow> False
      | Inr a \<Rightarrow> a \<notin> S \<and> ts < a \<and> a \<notin> keys_of (take i items))"

subsection \<open>Sample data\<close>

definition feeds2 :: Feeds where
  "feeds2 = [''http://a/rss'' \<mapsto> \<lparr>Chats = {7, 8}, Title = ''Daily News''\<rparr>,
             ''http://b/rss'' \<mapsto> \<lparr>Chats = {7}, Title = ''TechCrunch''\<rparr>]"

definition item_Old :: Item where
  "item_Old = \<lparr>Item_Title = ''Old'', PublishedParsed = Some (Date 2019 6 1 9 0 0 0 0),
     UpdatedParsed = None, Link = ''http://x/old''\<rparr>"

definition item_New :: Item where
  "item_New = \<lparr>Item_Title = ''New'', PublishedParsed = Some (Date 2019 7 8 9 0 0 0 0),
     UpdatedParsed = Some (Date 2019 7 8 10 30 0 0 0), Link = ''http://x/new''\<rparr>"

text \<open>
  A location with a change of offset: UTC, and one hour east of it from
  2019-03-31T01:00:00Z to 2019-10-27T01:00:00Z. Three items of the days around the change,
  the third with the title and the time of the first.
\<close>

definition London_2019 :: "int \<Rightarrow> int" where
  "London_2019 s = (if 1553994000 \<le> s \<and> s < 1572138000 then 3600 else 0)"

definition item_April :: Item where
  "item_April = \<lparr>Item_Title = ''New'', PublishedParsed = Some (Date 2019 4 1 9 0 0 0 0),
     UpdatedParsed = None, Link = ''http://x/new''\<rparr>"

definition item_March :: Item where
  "item_March = \<lparr>Item_Title = ''Old'', PublishedParsed = Some (Date 2019 3 20 9 0 0 0 0),
     UpdatedParsed = None, Link = ''http://x/old''\<rparr>"

definition item_April_again :: Item where
  "item_April_again = \<lparr>Item_Title = ''New'', PublishedParsed = None,
     UpdatedParsed = Some (Date 2019 4 1 9 0 0 0 0), Link = ''http://x/new-again''\<rparr>"

definition item_Mid :: Item where
  "item_Mid = \<lparr>Item_Title = ''Mid'', PublishedParsed = Some (Date 2019 7 5 9 0 0 0 0),
     UpdatedParsed = None, Link = ''http://y/mid''\<rparr>"

definition two_feeds :: "string \<Rightarrow> Parsed option" where
  "two_feeds url =
     (if url = ''http://x/rss'' then Some \<lparr>Parsed_Title = ''X'', Items = [item_New]\<rparr>
      else if url = ''http://y/rss'' then Some \<lparr>Parsed_Title = ''Y'', Items = [item_Mid]\<rparr>
      else None)"

section \<open>Lemmas\<close>

subsection \<open>Keys and the registry\<close>

lemma NewArticleKey_effective:
  "NewArticleKey title ts up =
     (case effective_timestamp ts up of
        None \<Rightarrow> Inl NilDereference
      | Some t \<Rightarrow> Inr (Format_RFC3339 t @ ''-'' @ title))"
  by (cases up) (simp_all add: NewArticleKey_def effective_timestamp_def)

lemma Contains_Nil [simp]: "Contains s []"
  by (cases s) simp_all

lemma Contains_sublist: "Contains s substr \<longleftrightarrow> sublist substr s"
  by (induction s) (auto simp: sublist_Cons_right)

lemma Rm_range_find:
  "Rm_range ToLower f (ToLower query) cid order =
     (case find (title_matches ToLower f query) order of
        None \<Rightarrow> (Some NoMatchingSubscription, f)
      | Some u \<Rightarrow> (None, f(u \<mapsto> Feed_Rm (the (f u)) cid)))"
  by (induction order) (auto simp: title_matches_def split: option.splits)

lemma title_matches_empty_query:
  "ToLower [] = [] \<Longrightarrow> title_matches ToLower f [] u \<longleftrightarrow> u \<in> dom f"
  by (auto simp: title_matches_def split: option.splits)

lemma Feeds_Rm_unfold:
  "Feeds_Rm ToLower order f url query cid =
     (if url \<noteq> [] \<and> url \<in> dom f
      then (None, f(url \<mapsto> (the (f url))\<lparr>Chats := Chats (the (f url)) - {cid}\<rparr>))
      else case find (title_matches ToLower f query) order of
             Some u \<Rightarrow> (None, f(u \<mapsto> (the (f u))\<lparr>Chats := Chats (the (f u)) - {cid}\<rparr>))
           | None \<Rightarrow> (Some NoMatchingSubscription, f))"
  by (auto simp: Feeds_Rm_def Rm_range_find Feed_Rm_def split: option.splits)

lemma feeds2_dom: "set [''http://a/rss'', ''http://b/rss''] = dom feeds2"
  by (auto simp: feeds2_def)


subsection \<open>The calendar\<close>

lemma days_before_year_less_Suc: "days_before_year y < days_before_year (y + 1)"
  by (simp add: days_before_year_Suc)

lemma days_before_year_mono_nat: "days_before_year y \<le> days_before_year (y + int k)"
proof (induction k)
  case 0
  then show ?case by simp
next
  case (Suc k)
  have "days_before_year (y + int k) < days_before_year (y + int k + 1)"
    by (rule days_before_year_less_Suc)
  moreover have "y + int (Suc k) = y + int k + 1" by simp
  ultimately show ?case using Suc by (simp only:)
qed

lemma days_before_year_mono: "y \<le> y' \<Longrightarrow> days_before_year y \<le> days_before_year y'"
  using days_before_year_mono_nat [of y "nat (y' - y)"] by simp

lemma year_from_bounds:
  "days_before_year y \<le> n \<Longrightarrow>
     days_before_year (year_from y n) \<le> n \<and> n < days_before_year (year_from y n + 1)"
proof (induction y n rule: year_from.induct)
  case (1 y n)
  show ?case
  proof (cases "days_before_year (y + 1) \<le> n")
    case True
    with "1.IH" have "days_before_year (year_from (y + 1) n) \<le> n \<and>
        n < days_before_year (year_from (y + 1) n + 1)"
      by simp
    moreover have "year_from y n = year_from (y + 1) n"
      using True by (subst year_from.simps) simp
    ultimately show ?thesis by simp
  next
    case False
    then have "year_from y n = y"
      by (subst year_from.simps) simp
    with False "1.prems" show ?thesis by simp
  qed
qed

lemma year_of_day_bounds:
  "days_before_year (year_of_day n) \<le> n \<and> n < days_before_year (year_of_day n + 1)"
proof -
  have "146097 * ((n + 719528) div 146097) \<le> n + 719528"
    by (metis mult.commute div_mult_mod_eq add.commute le_add_same_cancel1 pos_mod_sign zero_less_numeral add.commute)
  then have "days_before_year (400 * ((n + 719528) div 146097)) \<le> n"
    by (simp add: days_before_year_400)
  then show ?thesis
    unfolding year_of_day_def by (rule year_from_bounds)
qed

lemma year_of_day_mono: "n1 \<le> n2 \<Longrightarrow> year_of_day n1 \<le> year_of_day n2"
proof (rule ccontr)
  assume le: "n1 \<le> n2" and "\<not> year_of_day n1 \<le> year_of_day n2"
  then have "year_of_day n2 + 1 \<le> year_of_day n1" by simp
  then have "days_before_year (year_of_day n2 + 1) \<le> days_before_year (year_of_day n1)"
    by (rule days_before_year_mono)
  with year_of_day_bounds [of n1] year_of_day_bounds [of n2] le show False by linarith
qed

lemma year_of_day_range:
  assumes "days_before_year a \<le> n" "n < days_before_year b"
  shows "a \<le> year_of_day n \<and> year_of_day n < b"
proof -
  have "\<not> year_of_day n + 1 \<le> a"
    using days_before_year_mono [of "year_of_day n + 1" a] year_of_day_bounds [of n] assms
    by linarith
  moreover have "\<not> b \<le> year_of_day n"
    using days_before_year_mono [of b "year_of_day n"] year_of_day_bounds [of n] assms
    by linarith
  ultimately show ?thesis by simp
qed

lemma days_before_month_1: "days_before_month y 1 = 0"
  by (simp add: days_before_month_def daysBefore_def)

lemma days_before_month_13: "days_before_month y 13 = (if isLeap y then 366 else 365)"
  by (simp add: days_before_month_def daysBefore_def)

lemma days_before_month_step:
  assumes "1 \<le> m" "m \<le> 12"
  shows "days_before_month y m < days_before_month y (m + 1) \<and>
         days_before_month y (m + 1) \<le> days_before_month y m + 31"
proof -
  from assms have "m = 1 \<or> m = 2 \<or> m = 3 \<or> m = 4 \<or> m = 5 \<or> m = 6 \<or> m = 7 \<or> m = 8 \<or>
      m = 9 \<or> m = 10 \<or> m = 11 \<or> m = 12"
    by arith
  then show ?thesis
    by (elim disjE) (simp_all add: days_before_month_def daysBefore_def)
qed

lemma days_before_month_mono_nat:
  "1 \<le> m \<Longrightarrow> m + int k \<le> 13 \<Longrightarrow> days_before_month y m \<le> days_before_month y (m + int k)"
proof (induction k)
  case 0
  then show ?case by simp
next
  case (Suc k)
  have e: "m + int (Suc k) = m + int k + 1" by simp
  from Suc.prems have "1 \<le> m + int k" "m + int k \<le> 12" by simp_all
  then have "days_before_month y (m + int k) < days_before_month y (m + int k + 1)"
    using days_before_month_step by blast
  moreover from Suc have "days_before_month y m \<le> days_before_month y (m + int k)" by simp
  ultimately show ?case unfolding e by linarith
qed

lemma days_before_month_mono:
  "1 \<le> a \<Longrightarrow> a \<le> b \<Longrightarrow> b \<le> 13 \<Longrightarrow> days_before_month y a \<le> days_before_month y b"
  using days_before_month_mono_nat [of a "nat (b - a)" y] by simp

lemma month_from_bounds:
  "1 \<le> m \<Longrightarrow> m \<le> 12 \<Longrightarrow> days_before_month y m \<le> yd \<Longrightarrow> yd < days_before_month y 13 \<Longrightarrow>
     m \<le> month_from y m yd \<and> month_from y m yd \<le> 12 \<and>
     days_before_month y (month_from y m yd) \<le> yd \<and>
     yd < days_before_month y (month_from y m yd + 1)"
proof (induction y m yd rule: month_from.induct)
  case (1 y m yd)
  show ?case
  proof (cases "m < 12 \<and> days_before_month y (m + 1) \<le> yd")
    case True
    then have e: "month_from y m yd = month_from y (m + 1) yd"
      by (subst month_from.simps) simp
    from True "1.prems" have "m + 1 \<le> month_from y (m + 1) yd \<and> month_from y (m + 1) yd \<le> 12 \<and>
        days_before_month y (month_from y (m + 1) yd) \<le> yd \<and>
        yd < days_before_month y (month_from y (m + 1) yd + 1)"
      by (intro "1.IH") simp_all
    with e show ?thesis by simp
  next
    case False
    then have e: "month_from y m yd = m"
      by (subst month_from.simps) auto
    from False "1.prems" have "yd < days_before_month y (m + 1)"
      by (cases "m = 12") auto
    with e "1.prems" show ?thesis by simp
  qed
qed

lemma year_day_bounds:
  "0 \<le> year_day n \<and> year_day n < days_before_month (year_of_day n) 13"
  using year_of_day_bounds [of n]
  by (simp add: year_day_def days_before_month_13 days_before_year_Suc)

lemma month_of_bounds:
  assumes "0 \<le> yd" "yd < days_before_month y 13"
  shows "1 \<le> month_from y 1 yd \<and> month_from y 1 yd \<le> 12 \<and>
     days_before_month y (month_from y 1 yd) \<le> yd \<and>
     yd < days_before_month y (month_from y 1 yd + 1)"
  using month_from_bounds [of 1 y yd] assms by (simp add: days_before_month_1)

lemma month_of_mono:
  assumes "0 \<le> yd1" "yd1 \<le> yd2" "yd2 < days_before_month y 13"
  shows "month_from y 1 yd1 \<le> month_from y 1 yd2"
proof (rule ccontr)
  assume "\<not> month_from y 1 yd1 \<le> month_from y 1 yd2"
  then have lt: "month_from y 1 yd2 + 1 \<le> month_from y 1 yd1" by simp
  have b1: "1 \<le> month_from y 1 yd1 \<and> month_from y 1 yd1 \<le> 12 \<and>
     days_before_month y (month_from y 1 yd1) \<le> yd1"
    using month_of_bounds [of yd1 y] assms by simp
  have b2: "1 \<le> month_from y 1 yd2 \<and> yd2 < days_before_month y (month_from y 1 yd2 + 1)"
    using month_of_bounds [of yd2 y] assms by simp
  have "days_before_month y (month_from y 1 yd2 + 1) \<le> days_before_month y (month_from y 1 yd1)"
    using lt b1 b2 by (intro days_before_month_mono) simp_all
  with b1 b2 assms show False by linarith
qed

text \<open>The calendar date of a day number, field by field.\<close>
lemma civil_from_days_fields:
  "civil_from_days n =
     (year_of_day n, month_from (year_of_day n) 1 (year_day n),
      year_day n - days_before_month (year_of_day n) (month_from (year_of_day n) 1 (year_day n)) + 1)"
  by (simp add: civil_from_days_def year_day_def Let_def)

lemma civil_from_days_ranges:
  assumes "civil_from_days n = (y, m, d)"
  shows "1 \<le> m \<and> m \<le> 12 \<and> 1 \<le> d \<and> d \<le> 31"
proof -
  from assms have y: "y = year_of_day n" and m: "m = month_from y 1 (year_day n)"
    and d: "d = year_day n - days_before_month y m + 1"
    by (auto simp: civil_from_days_fields)
  have b: "1 \<le> m \<and> m \<le> 12 \<and> days_before_month y m \<le> year_day n \<and>
      year_day n < days_before_month y (m + 1)"
    unfolding m using month_of_bounds [of "year_day n" y] year_day_bounds [of n] y by simp
  with days_before_month_step [of m y] d show ?thesis by linarith
qed

lemma civil_from_days_less:
  assumes "n1 < n2" "civil_from_days n1 = (y1, m1, d1)" "civil_from_days n2 = (y2, m2, d2)"
  shows "y1 < y2 \<or> (y1 = y2 \<and> (m1 < m2 \<or> (m1 = m2 \<and> d1 < d2)))"
proof -
  from assms have y1: "y1 = year_of_day n1" and m1: "m1 = month_from y1 1 (year_day n1)"
    and d1: "d1 = year_day n1 - days_before_month y1 m1 + 1"
    by (auto simp: civil_from_days_fields)
  from assms have y2: "y2 = year_of_day n2" and m2: "m2 = month_from y2 1 (year_day n2)"
    and d2: "d2 = year_day n2 - days_before_month y2 m2 + 1"
    by (auto simp: civil_from_days_fields)
  have "y1 \<le> y2"
    unfolding y1 y2 using assms(1) by (intro year_of_day_mono) simp
  moreover have "m1 < m2 \<or> (m1 = m2 \<and> d1 < d2)" if e: "y1 = y2"
  proof -
    have lt: "year_day n1 < year_day n2"
      using assms(1) e y1 y2 by (simp add: year_day_def)
    have "m1 \<le> m2"
      unfolding m1 m2 e [symmetric]
      using lt year_day_bounds [of n1] year_day_bounds [of n2] e y1 y2
      by (intro month_of_mono) simp_all
    moreover have "d1 < d2" if "m1 = m2"
      using that lt d1 d2 e by simp
    ultimately show ?thesis by linarith
  qed
  ultimately show ?thesis by linarith
qed

lemma days_before_year_0: "days_before_year 0 = - 719528"
  by (simp add: days_before_year_def)

lemma days_before_year_10000: "days_before_year 10000 = 2932897"
  by (simp add: days_before_year_def)

lemma civil_from_days_year_range:
  assumes "- 719528 \<le> n" "n < 2932897" "civil_from_days n = (y, m, d)"
  shows "0 \<le> y \<and> y < 10000"
  using year_of_day_range [of 0 n 10000] assms
  by (simp add: days_before_year_0 days_before_year_10000 civil_from_days_fields)

lemma year_of_day_unique:
  "days_before_year y \<le> n \<Longrightarrow> n < days_before_year (y + 1) \<Longrightarrow> year_of_day n = y"
  using year_of_day_range [of y n "y + 1"] by simp

lemma month_from_unique:
  assumes "1 \<le> m" "m \<le> 12" "days_before_month y m \<le> yd" "yd < days_before_month y (m + 1)"
  shows "month_from y 1 yd = m"
proof -
  have lo: "0 \<le> yd"
    using days_before_month_mono [of 1 m y] assms by (simp add: days_before_month_1)
  have hi: "yd < days_before_month y 13"
    using days_before_month_mono [of "m + 1" 13 y] assms by simp
  note b = month_of_bounds [OF lo hi]
  have "\<not> month_from y 1 yd + 1 \<le> m"
    using days_before_month_mono [of "month_from y 1 yd + 1" m y] b assms by linarith
  moreover have "\<not> m + 1 \<le> month_from y 1 yd"
    using days_before_month_mono [of "m + 1" "month_from y 1 yd" y] b assms by linarith
  ultimately show ?thesis by simp
qed

text \<open>The date of a day number is the date whose day number it is.\<close>

lemma civil_from_days_days_from_civil:
  assumes "1 \<le> m" "m \<le> 12" "1 \<le> d"
    "d \<le> days_before_month y (m + 1) - days_before_month y m"
  shows "civil_from_days (days_from_civil y m d) = (y, m, d)"
proof -
  define n where "n = days_from_civil y m d"
  have lo: "0 \<le> days_before_month y m"
    using days_before_month_mono [of 1 m y] assms by (simp add: days_before_month_1)
  have hi: "days_before_month y (m + 1) \<le> days_before_month y 13"
    using days_before_month_mono [of "m + 1" 13 y] assms by simp
  have "days_before_year y \<le> n" "n < days_before_year (y + 1)"
    using lo hi assms
    by (simp_all add: n_def days_from_civil_def days_before_year_Suc days_before_month_13)
  then have y: "year_of_day n = y" by (rule year_of_day_unique)
  then have yd: "year_day n = days_before_month y m + d - 1"
    by (simp add: year_day_def n_def days_from_civil_def)
  have m: "month_from y 1 (year_day n) = m"
    using assms by (intro month_from_unique) (simp_all add: yd)
  have "civil_from_days n = (y, m, year_day n - days_before_month y m + 1)"
    by (simp only: civil_from_days_fields y m)
  then show ?thesis
    unfolding n_def [symmetric] by (simp add: yd)
qed

subsection \<open>Decimal fields\<close>

lemma length_padn [simp]: "length (padn w n) = w"
  by (induction w arbitrary: n) simp_all

lemma digit_0: "digit 0 = CHR ''0''"
  by (simp add: digit_def char_of_def bit_Suc_0_iff)

lemma padn_0: "padn w 0 = replicate w CHR ''0''"
  by (induction w) (simp_all add: digit_0 replicate_append_same)

lemma digit_less_iff: "a < 10 \<Longrightarrow> b < 10 \<Longrightarrow> digit a < digit b \<longleftrightarrow> a < b"
  by (simp add: digit_def less_char_def)

lemma digit_eq_iff: "a < 10 \<Longrightarrow> b < 10 \<Longrightarrow> digit a = digit b \<longleftrightarrow> a = b"
  by (auto simp: digit_def dest!: arg_cong [where f = "of_char :: char \<Rightarrow> nat"])

lemma less_append_same_length:
  fixes a b :: "'a :: linorder list"
  shows "length a = length b \<Longrightarrow> a @ r < b @ s \<longleftrightarrow> a < b \<or> (a = b \<and> r < s)"
  by (induction a b rule: list_induct2) auto

lemma less_same_prefix:
  fixes a :: "'a :: linorder list"
  shows "a @ r < a @ s \<longleftrightarrow> r < s"
  by (simp add: less_append_same_length)

lemma padn_cmp:
  "(padn w a < padn w b \<longleftrightarrow> a mod 10 ^ w < b mod 10 ^ w) \<and>
   (padn w a = padn w b \<longleftrightarrow> a mod 10 ^ w = b mod 10 ^ w)"
proof (induction w arbitrary: a b)
  case 0
  then show ?case by simp
next
  case (Suc w)
  define A where "A = a div 10 mod 10 ^ w"
  define B where "B = b div 10 mod 10 ^ w"
  define a0 where "a0 = a mod 10"
  define b0 where "b0 = b mod 10"
  have ma: "a mod 10 ^ Suc w = 10 * A + a0"
    by (simp add: mod_mult2_eq A_def a0_def)
  have mb: "b mod 10 ^ Suc w = 10 * B + b0"
    by (simp add: mod_mult2_eq B_def b0_def)
  have d: "a0 < 10" "b0 < 10" by (simp_all add: a0_def b0_def)
  have l: "padn w (a div 10) < padn w (b div 10) \<longleftrightarrow> A < B"
    and e: "padn w (a div 10) = padn w (b div 10) \<longleftrightarrow> A = B"
    using Suc.IH [of "a div 10" "b div 10"] by (simp_all add: A_def B_def)
  have "padn (Suc w) a < padn (Suc w) b \<longleftrightarrow> A < B \<or> (A = B \<and> a0 < b0)"
    using d by (simp add: less_append_same_length l e digit_less_iff a0_def [symmetric] b0_def [symmetric])
  moreover have "padn (Suc w) a = padn (Suc w) b \<longleftrightarrow> A = B \<and> a0 = b0"
    using d by (simp add: e digit_eq_iff a0_def [symmetric] b0_def [symmetric])
  moreover have "10 * A + a0 < 10 * B + b0 \<longleftrightarrow> A < B \<or> (A = B \<and> a0 < b0)"
    using d by arith
  moreover have "10 * A + a0 = 10 * B + b0 \<longleftrightarrow> A = B \<and> a0 = b0"
    using d by arith
  ultimately show ?case
    unfolding ma mb by blast
qed

lemma padn_less_iff: "a < 10 ^ w \<Longrightarrow> b < 10 ^ w \<Longrightarrow> padn w a < padn w b \<longleftrightarrow> a < b"
  using padn_cmp [of w a b] by simp

lemma padn_eq_iff: "a < 10 ^ w \<Longrightarrow> b < 10 ^ w \<Longrightarrow> padn w a = padn w b \<longleftrightarrow> a = b"
  using padn_cmp [of w a b] by simp

lemma digits_pad:
  "n < 10 ^ Suc w \<Longrightarrow> replicate (Suc w - length (digits n)) CHR ''0'' @ digits n = padn (Suc w) n"
proof (induction w arbitrary: n)
  case 0
  then have "digits n = [digit n]" by (subst digits.simps) simp
  with 0 show ?case by simp
next
  case (Suc w)
  show ?case
  proof (cases "n < 10")
    case True
    then have "digits n = [digit n]" by (subst digits.simps) simp
    with True show ?thesis
      by (simp add: padn_0 digit_0 replicate_append_same)
  next
    case False
    then have e: "digits n = digits (n div 10) @ [digit (n mod 10)]"
      by (subst digits.simps) simp
    from Suc.prems have "n div 10 < 10 ^ Suc w" by simp
    from Suc.IH [OF this] show ?thesis
      by (simp add: e)
  qed
qed

lemma appendInt_padn:
  "0 \<le> x \<Longrightarrow> x < 10 ^ Suc w \<Longrightarrow> appendInt x (Suc w) = padn (Suc w) (nat x)"
proof -
  assume a: "0 \<le> x" "x < 10 ^ Suc w"
  then have "nat x < 10 ^ Suc w"
    by (metis nat_less_iff of_nat_numeral of_nat_power)
  from digits_pad [OF this] a show ?thesis
    by (simp add: appendInt_def Let_def)
qed

lemma appendInt_2: "0 \<le> x \<Longrightarrow> x < 100 \<Longrightarrow> appendInt x 2 = padn 2 (nat x)"
proof -
  have e: "Suc 1 = 2" "(10::int) ^ Suc 1 = 100" by simp_all
  show "0 \<le> x \<Longrightarrow> x < 100 \<Longrightarrow> appendInt x 2 = padn 2 (nat x)"
    using appendInt_padn [of x 1] unfolding e by simp
qed

lemma appendInt_4: "0 \<le> x \<Longrightarrow> x < 10000 \<Longrightarrow> appendInt x 4 = padn 4 (nat x)"
proof -
  have e: "Suc 3 = 4" "(10::int) ^ Suc 3 = 10000" by simp_all
  show "0 \<le> x \<Longrightarrow> x < 10000 \<Longrightarrow> appendInt x 4 = padn 4 (nat x)"
    using appendInt_padn [of x 3] unfolding e by simp
qed

subsection \<open>The printed timestamp\<close>

lemma fields_less:
  fixes Y1 Y2 M1 M2 D1 D2 h1 h2 m1 m2 s1 s2 :: nat
  assumes "Y1 < 10000" "Y2 < 10000" "M1 < 100" "M2 < 100" "D1 < 100" "D2 < 100"
    "h1 < 100" "h2 < 100" "m1 < 100" "m2 < 100" "s1 < 100" "s2 < 100"
  shows "padn 4 Y1 @ ''-'' @ padn 2 M1 @ ''-'' @ padn 2 D1 @ ''T'' @
         padn 2 h1 @ '':'' @ padn 2 m1 @ '':'' @ padn 2 s1
       < padn 4 Y2 @ ''-'' @ padn 2 M2 @ ''-'' @ padn 2 D2 @ ''T'' @
         padn 2 h2 @ '':'' @ padn 2 m2 @ '':'' @ padn 2 s2
     \<longleftrightarrow> Y1 < Y2 \<or> (Y1 = Y2 \<and> (M1 < M2 \<or> (M1 = M2 \<and> (D1 < D2 \<or> (D1 = D2 \<and>
           (h1 < h2 \<or> (h1 = h2 \<and> (m1 < m2 \<or> (m1 = m2 \<and> s1 < s2)))))))))"
proof -
  have s: "padn 2 s1 < padn 2 s2 \<longleftrightarrow> s1 < s2"
    using assms by (simp add: padn_less_iff)
  have c: "padn w a @ c # r < padn w b @ c # r' \<longleftrightarrow>
      padn w a < padn w b \<or> (padn w a = padn w b \<and> r < r')" for w a b r r' and c :: char
    by (simp add: less_append_same_length)
  show ?thesis
    using assms
    by (simp only: append_Cons append_Nil c s) (simp add: padn_less_iff padn_eq_iff)
qed

lemma int_less_div_mod:
  fixes a b k :: int
  assumes "0 < k"
  shows "a < b \<longleftrightarrow> a div k < b div k \<or> (a div k = b div k \<and> a mod k < b mod k)"
proof -
  have a: "a = k * (a div k) + a mod k" and b: "b = k * (b div k) + b mod k" by simp_all
  have ra: "0 \<le> a mod k" "a mod k < k" and rb: "0 \<le> b mod k" "b mod k < k"
    using assms by simp_all
  show ?thesis
  proof (cases "a div k = b div k")
    case True
    with a b show ?thesis by (metis add_less_cancel_left less_irrefl)
  next
    case False
    have "a div k < b div k \<Longrightarrow> a < b"
      using zdiv_mono1 [of b a k] assms by linarith
    moreover have "a < b \<Longrightarrow> a div k < b div k"
      using zdiv_mono1 [of a b k] assms False by linarith
    ultimately show ?thesis using False by blast
  qed
qed

lemma day_number_range:
  fixes l :: int
  assumes "- 62167219200 \<le> l" "l < 253402300800"
  shows "- 719528 \<le> l div 86400 \<and> l div 86400 < 2932897"
proof -
  have "- 62167219200 div 86400 \<le> l div 86400"
    using assms by (intro zdiv_mono1) simp_all
  moreover have "l div 86400 < 2932897"
    using assms by (simp add: div_less_iff_less_mult)
  ultimately show ?thesis by simp
qed

lemma Clock_ranges:
  assumes "Clock l = (hh, mm, ss)"
  shows "0 \<le> hh \<and> hh < 24 \<and> 0 \<le> mm \<and> mm < 60 \<and> 0 \<le> ss \<and> ss < 60"
proof -
  define c where "c = l mod 86400"
  have c: "0 \<le> c" "c < 86400" by (simp_all add: c_def)
  have f: "hh = c div 3600" "mm = c mod 3600 div 60" "ss = c mod 60"
    using assms by (simp_all add: Clock_def c_def Let_def)
  have "c div 3600 < 24" using c by (simp add: div_less_iff_less_mult)
  moreover have "c mod 3600 div 60 < 60" by (simp add: div_less_iff_less_mult)
  moreover have "0 \<le> c div 3600" using c by (simp add: pos_imp_zdiv_nonneg_iff)
  moreover have "0 \<le> c mod 3600 div 60" by (simp add: pos_imp_zdiv_nonneg_iff)
  ultimately show ?thesis unfolding f by simp
qed

lemma Clock_less:
  assumes "l1 div 86400 = l2 div 86400" "l1 < l2"
    "Clock l1 = (h1, m1, s1)" "Clock l2 = (h2, m2, s2)"
  shows "h1 < h2 \<or> (h1 = h2 \<and> (m1 < m2 \<or> (m1 = m2 \<and> s1 < s2)))"
proof -
  define a where "a = l1 mod 86400"
  define b where "b = l2 mod 86400"
  have f1: "h1 = a div 3600" "m1 = a mod 3600 div 60" "s1 = a mod 3600 mod 60"
    using assms by (simp_all add: Clock_def a_def Let_def mod_mod_cancel)
  have f2: "h2 = b div 3600" "m2 = b mod 3600 div 60" "s2 = b mod 3600 mod 60"
    using assms by (simp_all add: Clock_def b_def Let_def mod_mod_cancel)
  have "a < b"
    using int_less_div_mod [of 86400 l1 l2] assms by (simp add: a_def b_def)
  then have "a div 3600 < b div 3600 \<or> (a div 3600 = b div 3600 \<and> a mod 3600 < b mod 3600)"
    using int_less_div_mod [of 3600 a b] by simp
  moreover have "a mod 3600 < b mod 3600 \<longleftrightarrow> a mod 3600 div 60 < b mod 3600 div 60 \<or>
      (a mod 3600 div 60 = b mod 3600 div 60 \<and> a mod 3600 mod 60 < b mod 3600 mod 60)"
    by (rule int_less_div_mod) simp
  ultimately show ?thesis unfolding f1 f2 by blast
qed

lemma Format_RFC3339_stamp:
  assumes "years_0_to_9999 t"
  shows "Format_RFC3339 t = stamp (sec t + offset t) @ format_zone (offset t)"
proof -
  define l where "l = sec t + offset t"
  obtain y m d where c: "civil_from_days (l div 86400) = (y, m, d)"
    by (cases "civil_from_days (l div 86400)") auto
  obtain hh mm ss where k: "Clock l = (hh, mm, ss)"
    by (cases "Clock l") auto
  have n: "- 719528 \<le> l div 86400 \<and> l div 86400 < 2932897"
    using assms by (intro day_number_range) (simp_all add: years_0_to_9999_def l_def)
  have y: "0 \<le> y \<and> y < 10000"
    using civil_from_days_year_range [of "l div 86400" y m d] n c by simp
  have md: "1 \<le> m \<and> m \<le> 12 \<and> 1 \<le> d \<and> d \<le> 31"
    using civil_from_days_ranges [OF c] .
  have a: "appendInt y 4 = padn 4 (nat y)" "appendInt m 2 = padn 2 (nat m)"
    "appendInt d 2 = padn 2 (nat d)" "appendInt hh 2 = padn 2 (nat hh)"
    "appendInt mm 2 = padn 2 (nat mm)" "appendInt ss 2 = padn 2 (nat ss)"
    using y md Clock_ranges [OF k] by (simp_all add: appendInt_2 appendInt_4)
  show ?thesis
    by (simp add: Format_RFC3339_def stamp_def Let_def l_def [symmetric] c k a)
qed

lemma length_stamp [simp]: "length (stamp l) = 19"
  by (simp add: stamp_def Let_def split: prod.splits)

lemma stamp_less:
  assumes "- 62167219200 \<le> l1" "l1 < l2" "l2 < 253402300800"
  shows "stamp l1 < stamp l2"
proof -
  obtain y1 m1 d1 where c1: "civil_from_days (l1 div 86400) = (y1, m1, d1)"
    by (cases "civil_from_days (l1 div 86400)") auto
  obtain y2 m2 d2 where c2: "civil_from_days (l2 div 86400) = (y2, m2, d2)"
    by (cases "civil_from_days (l2 div 86400)") auto
  obtain h1 i1 s1 where k1: "Clock l1 = (h1, i1, s1)"
    by (cases "Clock l1") auto
  obtain h2 i2 s2 where k2: "Clock l2 = (h2, i2, s2)"
    by (cases "Clock l2") auto
  have n1: "- 719528 \<le> l1 div 86400 \<and> l1 div 86400 < 2932897"
    using assms by (intro day_number_range) simp_all
  have n2: "- 719528 \<le> l2 div 86400 \<and> l2 div 86400 < 2932897"
    using assms by (intro day_number_range) simp_all
  have y1: "0 \<le> y1 \<and> y1 < 10000"
    using civil_from_days_year_range [of "l1 div 86400" y1 m1 d1] n1 c1 by simp
  have y2: "0 \<le> y2 \<and> y2 < 10000"
    using civil_from_days_year_range [of "l2 div 86400" y2 m2 d2] n2 c2 by simp
  note r1 = civil_from_days_ranges [OF c1] and r2 = civil_from_days_ranges [OF c2]
  note q1 = Clock_ranges [OF k1] and q2 = Clock_ranges [OF k2]
  have order: "(y1 < y2 \<or> (y1 = y2 \<and> (m1 < m2 \<or> (m1 = m2 \<and> d1 < d2)))) \<or>
      (y1 = y2 \<and> m1 = m2 \<and> d1 = d2 \<and>
       (h1 < h2 \<or> (h1 = h2 \<and> (i1 < i2 \<or> (i1 = i2 \<and> s1 < s2)))))"
  proof (cases "l1 div 86400 = l2 div 86400")
    case True
    from Clock_less [OF True assms(2) k1 k2] True c1 c2 show ?thesis by simp
  next
    case False
    with int_less_div_mod [of 86400 l1 l2] assms have "l1 div 86400 < l2 div 86400" by simp
    from civil_from_days_less [OF this c1 c2] show ?thesis by simp
  qed
  have b: "nat y1 < 10000" "nat y2 < 10000" "nat m1 < 100" "nat m2 < 100"
    "nat d1 < 100" "nat d2 < 100" "nat h1 < 100" "nat h2 < 100" "nat i1 < 100" "nat i2 < 100"
    "nat s1 < 100" "nat s2 < 100"
    using y1 y2 r1 r2 q1 q2 by auto
  have nn: "0 \<le> y1" "0 \<le> y2" "0 \<le> m1" "0 \<le> m2" "0 \<le> d1" "0 \<le> d2"
    "0 \<le> h1" "0 \<le> h2" "0 \<le> i1" "0 \<le> i2" "0 \<le> s1" "0 \<le> s2"
    using y1 y2 r1 r2 q1 q2 by auto
  have "nat y1 < nat y2 \<or> (nat y1 = nat y2 \<and> (nat m1 < nat m2 \<or> (nat m1 = nat m2 \<and>
      (nat d1 < nat d2 \<or> (nat d1 = nat d2 \<and> (nat h1 < nat h2 \<or> (nat h1 = nat h2 \<and>
      (nat i1 < nat i2 \<or> (nat i1 = nat i2 \<and> nat s1 < nat s2)))))))))"
    using order nn by (simp add: nat_less_eq_zless nat_eq_iff) linarith
  then have "padn 4 (nat y1) @ ''-'' @ padn 2 (nat m1) @ ''-'' @ padn 2 (nat d1) @ ''T'' @
         padn 2 (nat h1) @ '':'' @ padn 2 (nat i1) @ '':'' @ padn 2 (nat s1)
       < padn 4 (nat y2) @ ''-'' @ padn 2 (nat m2) @ ''-'' @ padn 2 (nat d2) @ ''T'' @
         padn 2 (nat h2) @ '':'' @ padn 2 (nat i2) @ '':'' @ padn 2 (nat s2)"
    by (simp only: fields_less [OF b])
  then show ?thesis
    by (simp add: stamp_def c1 c2 k1 k2)
qed

lemma Clock_fields:
  assumes "0 \<le> hh" "hh < 24" "0 \<le> mm" "mm < 60" "0 \<le> ss" "ss < 60"
  shows "(n * 86400 + hh * 3600 + mm * 60 + ss) div 86400 = n \<and>
     Clock (n * 86400 + hh * 3600 + mm * 60 + ss) = (hh, mm, ss)"
proof -
  define r where "r = hh * 3600 + mm * 60 + ss"
  define l where "l = n * 86400 + hh * 3600 + mm * 60 + ss"
  have r: "0 \<le> r" "r < 86400" using assms by (simp_all add: r_def)
  have l: "l = 86400 * n + r" by (simp add: l_def r_def)
  have d: "l div 86400 = n" using r by (intro int_div_pos_eq [OF l]) simp_all
  have c: "l mod 86400 = r" using r by (intro int_mod_pos_eq [OF l]) simp_all
  have r1: "r = 3600 * hh + (mm * 60 + ss)" by (simp add: r_def)
  have h: "r div 3600 = hh" using assms by (intro int_div_pos_eq [OF r1]) simp_all
  have r2: "r mod 3600 = mm * 60 + ss" using assms by (intro int_mod_pos_eq [OF r1]) simp_all
  have r3: "mm * 60 + ss = 60 * mm + ss" by simp
  have m: "(mm * 60 + ss) div 60 = mm" using assms by (intro int_div_pos_eq [OF r3]) simp_all
  have r4: "r = 60 * (hh * 60 + mm) + ss" by (simp add: r_def)
  have s: "r mod 60 = ss" using assms by (intro int_mod_pos_eq [OF r4]) simp_all
  show ?thesis
    unfolding l_def [symmetric] by (simp add: d Clock_def Let_def c h r2 m s)
qed

text \<open>Printing a time built from calendar fields prints those fields.\<close>

lemma Format_RFC3339_Date:
  assumes "1 \<le> m" "m \<le> 12" "1 \<le> d"
    "d \<le> days_before_month y (m + 1) - days_before_month y m"
    "0 \<le> hh" "hh < 24" "0 \<le> mm" "mm < 60" "0 \<le> ss" "ss < 60"
  shows "Format_RFC3339 (Date y m d hh mm ss ns off) =
     appendInt y 4 @ ''-'' @ appendInt m 2 @ ''-'' @ appendInt d 2 @ ''T'' @
     appendInt hh 2 @ '':'' @ appendInt mm 2 @ '':'' @ appendInt ss 2 @ format_zone off"
proof -
  have e: "sec (Date y m d hh mm ss ns off) + offset (Date y m d hh mm ss ns off) =
      days_from_civil y m d * 86400 + hh * 3600 + mm * 60 + ss"
    by (simp add: Date_def offset_def)
  note k = Clock_fields [OF assms(5-10), of "days_from_civil y m d"]
  note c = civil_from_days_days_from_civil [OF assms(1-4)]
  show ?thesis
    unfolding Format_RFC3339_def e Let_def
    by (simp add: k c Date_def offset_def)
qed

lemma Format_RFC3339_cong:
  "sec t = sec u \<Longrightarrow> offset t = offset u \<Longrightarrow> Format_RFC3339 t = Format_RFC3339 u"
  by (simp add: Format_RFC3339_def)

lemma key_less_earlier_second:
  assumes "offset t = offset u" "years_0_to_9999 t" "years_0_to_9999 u" "sec t < sec u"
  shows "Format_RFC3339 t @ CHR ''-'' # a < Format_RFC3339 u @ CHR ''-'' # b"
proof -
  have "stamp (sec t + offset t) < stamp (sec u + offset u)"
    using assms by (intro stamp_less) (simp_all add: years_0_to_9999_def)
  then show ?thesis
    using assms by (simp add: Format_RFC3339_stamp less_append_same_length)
qed

lemma key_less_same_second:
  assumes "offset t = offset u" "sec t = sec u"
  shows "Format_RFC3339 t @ CHR ''-'' # a < Format_RFC3339 u @ CHR ''-'' # b \<longleftrightarrow> a < b"
  using Format_RFC3339_cong [of t u] assms by (simp add: less_same_prefix)

subsection \<open>The loop over the items\<close>

lemma MarkSeen_eq:
  "MarkSeen s cid a = (a \<in> seen_of s cid, s(cid \<mapsto> insert a (seen_of s cid)))"
  by (cases "s cid")
    (auto simp: MarkSeen_def seen_of_def Let_def insert_absorb map_upd_triv)

text \<open>
  The older variant of the cycle tests with \<^verbatim>\<open>Seen\<close> and inserts with \<^verbatim>\<open>Mark\<close>: the same
  as \<^verbatim>\<open>MarkSeen\<close> where the set of the channel is allocated.
\<close>

lemma Seen_Seen_Mark_MarkSeen:
  assumes "s cid = Some S"
  shows "Seen_Seen (s cid) a = fst (MarkSeen s cid a) \<and>
     (\<not> Seen_Seen (s cid) a \<longrightarrow>
        Seen_Mark (s cid) a = Inr (snd (MarkSeen s cid a) cid))"
  using assms by (simp add: MarkSeen_eq Seen_Seen_def Seen_Mark_def seen_of_def)

lemma item_key_Inr:
  "PublishedParsed it \<noteq> None \<or> UpdatedParsed it \<noteq> None \<Longrightarrow> \<exists>a. item_key it = Inr a"
  by (cases "PublishedParsed it"; cases "UpdatedParsed it")
    (simp_all add: item_key_def NewArticleKey_def)

lemma keys_of_Nil [simp]: "keys_of [] = {}"
  by (simp add: keys_of_def)

lemma keys_of_Cons: "item_key it = Inr a \<Longrightarrow> keys_of (it # its) = insert a (keys_of its)"
  by (auto simp: keys_of_def)

lemma items_loop_queue:
  assumes "\<forall>it \<in> set items. PublishedParsed it \<noteq> None \<or> UpdatedParsed it \<noteq> None"
  shows "\<exists>q s'. items_loop ts cid items (q0, s) = Inr (q0 @ q, s') \<and>
     seen_of s' cid = seen_of s cid \<union> keys_of items \<and> (\<forall>c. c \<noteq> cid \<longrightarrow> s' c = s c) \<and>
     fst ` set q = {a \<in> keys_of items. a \<notin> seen_of s cid \<and> ts < a} \<and>
     distinct (map fst q) \<and>
     (\<forall>(a, it) \<in> set q. it \<in> set items \<and> item_key it = Inr a)"
  using assms
proof (induction items arbitrary: q0 s)
  case Nil
  show ?case by simp
next
  case (Cons it its)
  from Cons.prems obtain a where a: "item_key it = Inr a"
    using item_key_Inr [of it] by auto
  define S where "S = seen_of s cid"
  define s1 where "s1 = s(cid \<mapsto> insert a S)"
  define q1 where "q1 = (if a \<notin> S \<and> ts < a then q0 @ [(a, it)] else q0)"
  have step: "items_loop ts cid (it # its) (q0, s) = items_loop ts cid its (q1, s1)"
    by (simp add: a MarkSeen_eq S_def s1_def q1_def)
  have S1: "seen_of s1 cid = insert a S"
    by (simp add: s1_def seen_of_def)
  from Cons.prems have "\<forall>it \<in> set its. PublishedParsed it \<noteq> None \<or> UpdatedParsed it \<noteq> None"
    by simp
  from Cons.IH [OF this, of q1 s1] obtain q s' where
    r: "items_loop ts cid its (q1, s1) = Inr (q1 @ q, s')"
    and s': "seen_of s' cid = seen_of s1 cid \<union> keys_of its"
    and o: "\<forall>c. c \<noteq> cid \<longrightarrow> s' c = s1 c"
    and f: "fst ` set q = {b \<in> keys_of its. b \<notin> seen_of s1 cid \<and> ts < b}"
    and d: "distinct (map fst q)"
    and m: "\<forall>(b, i) \<in> set q. i \<in> set its \<and> item_key i = Inr b"
    by blast
  define h where "h = (if a \<notin> S \<and> ts < a then [(a, it)] else [])"
  have q1: "q1 = q0 @ h" by (simp add: q1_def h_def)
  have "items_loop ts cid (it # its) (q0, s) = Inr (q0 @ (h @ q), s')"
    using r unfolding step q1 by simp
  moreover have "seen_of s' cid = seen_of s cid \<union> keys_of (it # its)"
    by (simp add: s' S1 keys_of_Cons [OF a] S_def)
  moreover have "\<forall>c. c \<noteq> cid \<longrightarrow> s' c = s c"
    using o by (simp add: s1_def)
  moreover have "fst ` set (h @ q) = {b \<in> keys_of (it # its). b \<notin> seen_of s cid \<and> ts < b}"
    unfolding keys_of_Cons [OF a] set_append image_Un f S1 S_def [symmetric]
    by (auto simp: h_def)
  moreover have "distinct (map fst (h @ q))"
    using d f by (auto simp: h_def S1)
  moreover have "\<forall>(b, i) \<in> set (h @ q). i \<in> set (it # its) \<and> item_key i = Inr b"
    using m a by (auto simp: h_def)
  ultimately show ?case by blast
qed

lemma first_new_0: "item_key it = Inr a \<Longrightarrow> first_new ts S (it # its) 0 \<longleftrightarrow> a \<notin> S \<and> ts < a"
  by (simp add: first_new_def)

lemma first_new_Suc:
  "item_key it = Inr a \<Longrightarrow> first_new ts S (it # its) (Suc i) \<longleftrightarrow> first_new ts (insert a S) its i"
  by (auto simp: first_new_def keys_of_Cons split: sum.splits)

lemma filter_first_new_Cons:
  assumes "item_key it = Inr a"
  shows "map (\<lambda>i. (it # its) ! i) [i \<leftarrow> [0..<length (it # its)]. first_new ts S (it # its) i] =
     (if a \<notin> S \<and> ts < a then [it] else []) @
     map (\<lambda>i. its ! i) [i \<leftarrow> [0..<length its]. first_new ts (insert a S) its i]"
proof -
  have "[0..<Suc (length its)] = 0 # [Suc 0..<Suc (length its)]"
    by (rule upt_conv_Cons) simp
  then have u: "[0..<length (it # its)] = 0 # map Suc [0..<length its]"
    by (simp only: length_Cons map_Suc_upt)
  have f: "[i \<leftarrow> map Suc [0..<length its]. first_new ts S (it # its) i] =
      map Suc [i \<leftarrow> [0..<length its]. first_new ts (insert a S) its i]"
    by (simp add: filter_map o_def first_new_Suc [OF assms])
  show ?thesis
    unfolding u by (simp add: f first_new_0 [OF assms] o_def)
qed

lemma items_loop_queue_order:
  assumes "\<forall>it \<in> set items. PublishedParsed it \<noteq> None \<or> UpdatedParsed it \<noteq> None"
  shows "\<exists>q s'. items_loop ts cid items (q0, s) = Inr (q0 @ q, s') \<and>
     map snd q = map (\<lambda>i. items ! i) [i \<leftarrow> [0..<length items]. first_new ts (seen_of s cid) items i]"
  using assms
proof (induction items arbitrary: q0 s)
  case Nil
  show ?case by simp
next
  case (Cons it its)
  from Cons.prems obtain a where a: "item_key it = Inr a"
    using item_key_Inr [of it] by auto
  define S where "S = seen_of s cid"
  define s1 where "s1 = s(cid \<mapsto> insert a S)"
  define h where "h = (if a \<notin> S \<and> ts < a then [(a, it)] else [])"
  have step: "items_loop ts cid (it # its) (q0, s) = items_loop ts cid its (q0 @ h, s1)"
    by (simp add: a MarkSeen_eq S_def s1_def h_def)
  have S1: "seen_of s1 cid = insert a S"
    by (simp add: s1_def seen_of_def)
  from Cons.prems have "\<forall>it \<in> set its. PublishedParsed it \<noteq> None \<or> UpdatedParsed it \<noteq> None"
    by simp
  from Cons.IH [OF this, of "q0 @ h" s1] obtain q s' where
    r: "items_loop ts cid its (q0 @ h, s1) = Inr ((q0 @ h) @ q, s')"
    and o: "map snd q = map (\<lambda>i. its ! i) [i \<leftarrow> [0..<length its]. first_new ts (insert a S) its i]"
    unfolding S1 by blast
  have "items_loop ts cid (it # its) (q0, s) = Inr (q0 @ (h @ q), s')"
    using r unfolding step by simp
  moreover have "map snd (h @ q) =
      map (\<lambda>i. (it # its) ! i) [i \<leftarrow> [0..<length (it # its)]. first_new ts S (it # its) i]"
    unfolding filter_first_new_Cons [OF a] by (simp add: o h_def)
  ultimately show ?case unfolding S_def by blast
qed

lemma sort_key_distinct_unique:
  fixes q out :: "('k :: linorder \<times> 'v) list"
  assumes "distinct (map fst q)" "mset out = mset q" "sorted (map fst out)"
  shows "out = sort_key fst q"
proof -
  have s: "set out = set q" using assms(2) by (rule mset_eq_setD)
  have "mset (map fst out) = mset (map fst q)" using assms(2) by simp
  then have dout: "distinct (map fst out)"
    using assms(1) by (metis mset_eq_imp_distinct_iff)
  have "map fst out = map fst (sort_key fst q)"
  proof (rule sorted_distinct_set_unique)
    show "sorted (map fst out)" by fact
    show "distinct (map fst out)" by fact
    show "sorted (map fst (sort_key fst q))" by simp
    show "distinct (map fst (sort_key fst q))"
      using assms(1) by (metis distinct_map distinct_sort set_sort inj_on_def)
    show "set (map fst out) = set (map fst (sort_key fst q))"
      using s by simp
  qed
  moreover have "inj_on fst (set out \<union> set (sort_key fst q))"
    using assms(1) s by (simp add: distinct_map)
  ultimately show ?thesis
    by (simp add: inj_on_map_eq_map)
qed

lemma sort_Slice_strict:
  "distinct (map fst q) \<Longrightarrow> sorted_wrt (<) (map fst (sort_Slice q))"
proof -
  assume "distinct (map fst q)"
  then have "distinct (map fst (sort_key fst q))"
    by (metis distinct_map distinct_sort set_sort inj_on_def)
  then show ?thesis
    by (simp add: sort_Slice_def strict_sorted_iff)
qed

lemma cutoff_Inr: "cutoff now = Inr (Format_RFC3339 (Add now (- 192 * Hour)) @ ''-'')"
  by (simp add: cutoff_def NewArticleKey_def)

lemma item_key_effective:
  "effective_timestamp (PublishedParsed it) (UpdatedParsed it) = Some t \<Longrightarrow>
     item_key it = Inr (Format_RFC3339 t @ ''-'' @ Item_Title it)"
  by (simp add: item_key_def NewArticleKey_effective)

section \<open>Article identity: totality and what the key depends on\<close>

text \<open>
  C5: the key is a function of the title and of the effective timestamp (updated when
  present, else published) and of nothing else: two calls with the same title and the same
  effective timestamp return the same result, whether the timestamp came in as published
  or as updated. No feed is among the arguments.
\<close>

theorem NewArticleKey_depends_on_title_and_effective_timestamp:
  "effective_timestamp ts up = effective_timestamp ts' up' \<Longrightarrow>
     NewArticleKey title ts up = NewArticleKey title ts' up'"
  by (simp add: NewArticleKey_effective)

theorem NewArticleKey_depends_on_title_and_effective_timestamp_witness:
  "effective_timestamp (Some (Date 2019 7 1 12 0 0 0 0)) None =
     effective_timestamp (Some (Date 2019 6 30 8 0 0 0 0)) (Some (Date 2019 7 1 12 0 0 0 0)) \<and>
   NewArticleKey ''Post'' (Some (Date 2019 7 1 12 0 0 0 0)) None =
     NewArticleKey ''Post'' (Some (Date 2019 6 30 8 0 0 0 0)) (Some (Date 2019 7 1 12 0 0 0 0))"
proof -
  have e: "effective_timestamp (Some (Date 2019 7 1 12 0 0 0 0)) None =
     effective_timestamp (Some (Date 2019 6 30 8 0 0 0 0)) (Some (Date 2019 7 1 12 0 0 0 0))"
    by (simp add: effective_timestamp_def)
  from NewArticleKey_depends_on_title_and_effective_timestamp [OF e, of "''Post''"] e
  show ?thesis by simp
qed

text \<open>
  C9: \<^verbatim>\<open>NewArticleKey\<close> returns a key exactly when at least one of the two timestamps is
  present; with both absent it dereferences a nil pointer and returns nothing.
\<close>

theorem NewArticleKey_total_iff_timestamp:
  "((\<exists>k. NewArticleKey title ts up = Inr k) \<longleftrightarrow> (ts \<noteq> None \<or> up \<noteq> None)) \<and>
   (NewArticleKey title ts up = Inl NilDereference \<longleftrightarrow> (ts = None \<and> up = None))"
  by (cases ts; cases up) (simp_all add: NewArticleKey_def)

theorem NewArticleKey_total_iff_timestamp_witness:
  "(\<exists>k. NewArticleKey ''Post'' (Some (Date 2019 7 1 12 0 0 0 0)) None = Inr k) \<and>
   (\<exists>k. NewArticleKey ''Post'' None (Some (Date 2019 7 1 12 0 0 0 0)) = Inr k) \<and>
   NewArticleKey ''Post'' None None = Inl NilDereference"
  using NewArticleKey_total_iff_timestamp [of "''Post''" "Some (Date 2019 7 1 12 0 0 0 0)" None]
    NewArticleKey_total_iff_timestamp [of "''Post''" None "Some (Date 2019 7 1 12 0 0 0 0)"]
    NewArticleKey_total_iff_timestamp [of "''Post''" None None]
  by simp

section \<open>The dedup gate\<close>

text \<open>
  C2: \<^verbatim>\<open>MarkSeen(c, k)\<close> returns whether \<open>k\<close> was in the seen-set of \<open>c\<close> before the call
  and leaves the store with \<open>k\<close> inserted there (every other channel as it was); so on a
  store where \<open>k\<close> is unseen two calls in a row return false, then true, and \<open>k\<close> is a member
  afterwards.
\<close>

theorem MarkSeen_test_and_insert:
  "MarkSeen s cid a = (a \<in> seen_of s cid, s(cid \<mapsto> insert a (seen_of s cid))) \<and>
   (a \<notin> seen_of s cid \<longrightarrow>
      (let (r1, s1) = MarkSeen s cid a; (r2, s2) = MarkSeen s1 cid a
       in \<not> r1 \<and> r2 \<and> a \<in> seen_of s2 cid))"
  by (simp add: MarkSeen_eq) (simp add: seen_of_def)

theorem MarkSeen_test_and_insert_witness:
  "''k'' \<notin> seen_of Map.empty (7 :: ChatID) \<and>
   (let (r1, s1) = MarkSeen Map.empty 7 ''k''; (r2, s2) = MarkSeen s1 7 ''k''
    in \<not> r1 \<and> r2 \<and> ''k'' \<in> seen_of s2 7)"
  using MarkSeen_test_and_insert [of Map.empty 7 "''k''"]
    MarkSeen_test_and_insert [of "[7 \<mapsto> {''k''}]" 7 "''k''"]
  by (simp add: seen_of_def)

section \<open>Subscribing\<close>

text \<open>
  C6: when the url is not a key of the registry and fetching it fails, \<^verbatim>\<open>Add\<close> returns an
  error and the registry is the one before the call: no entry for the url, nobody
  subscribed.
\<close>

theorem Feeds_Add_failed_fetch_unchanged:
  "f url = None \<Longrightarrow> ParseURL url = None \<Longrightarrow>
     Feeds_Add ParseURL f url cid = (Some FeedsAdd, f)"
  by (simp add: Feeds_Add_def Feeds_New_def)

theorem Feeds_Add_failed_fetch_unchanged_witness:
  "(Map.empty :: Feeds) ''http://x/feed'' = None \<and>
   (\<lambda>u. None :: Parsed option) ''http://x/feed'' = None \<and>
   Feeds_Add (\<lambda>u. None) Map.empty ''http://x/feed'' 7 = (Some FeedsAdd, Map.empty)"
  using Feeds_Add_failed_fetch_unchanged [of Map.empty "''http://x/feed''" "\<lambda>u. None" 7]
  by simp

section \<open>Unsubscribing\<close>




text \<open>
  C10: on a registry that is not empty, \<^verbatim>\<open>Rm(url, "", cid)\<close> with \<open>url\<close> not a key succeeds
  and removes \<open>cid\<close> from the subscribers of some feed (the first the loop visits), since
  every title contains the empty string; so the not-found error needs an empty registry
  or a query that is not empty. This holds for every function in the place of
  \<^verbatim>\<open>strings.ToLower\<close> that leaves the empty string empty, as Go's does.
\<close>

theorem Feeds_Rm_empty_query_succeeds:
  assumes "set order = dom f" and "ToLower [] = []"
  shows "(dom f \<noteq> {} \<and> url \<notin> dom f \<longrightarrow>
      (\<exists>u feed. f u = Some feed \<and>
         Feeds_Rm ToLower order f url [] cid =
           (None, f(u \<mapsto> feed\<lparr>Chats := Chats feed - {cid}\<rparr>)))) \<and>
   (fst (Feeds_Rm ToLower order f url query cid) = Some NoMatchingSubscription \<longrightarrow>
      dom f = {} \<or> query \<noteq> [])"
proof (intro conjI impI)
  assume h: "dom f \<noteq> {} \<and> url \<notin> dom f"
  with assms obtain u us where o: "order = u # us" by (cases order) auto
  with assms obtain feed where u: "f u = Some feed" by auto
  have "find (title_matches ToLower f []) order = Some u"
    using o u assms(2) by (simp add: title_matches_empty_query domI)
  then have "Feeds_Rm ToLower order f url [] cid =
      (None, f(u \<mapsto> feed\<lparr>Chats := Chats feed - {cid}\<rparr>))"
    using h u by (simp add: Feeds_Rm_unfold)
  with u show "\<exists>u feed. f u = Some feed \<and>
         Feeds_Rm ToLower order f url [] cid =
           (None, f(u \<mapsto> feed\<lparr>Chats := Chats feed - {cid}\<rparr>))"
    by blast
next
  assume e: "fst (Feeds_Rm ToLower order f url query cid) = Some NoMatchingSubscription"
  show "dom f = {} \<or> query \<noteq> []"
  proof (rule ccontr)
    assume "\<not> (dom f = {} \<or> query \<noteq> [])"
    then have ne: "dom f \<noteq> {}" and q: "query = []" by auto
    from ne assms obtain u us where o: "order = u # us" by (cases order) auto
    with assms have "u \<in> dom f" by auto
    then have "find (title_matches ToLower f []) order = Some u"
      using o assms(2) by (simp add: title_matches_empty_query)
    with e q show False
      by (simp add: Feeds_Rm_unfold split: if_splits)
  qed
qed

theorem Feeds_Rm_empty_query_succeeds_witness:
  "set [''http://a/rss'', ''http://b/rss''] = dom feeds2 \<and> ToLower_ASCII [] = [] \<and>
   dom feeds2 \<noteq> {} \<and> ''http://c/rss'' \<notin> dom feeds2 \<and>
   (\<exists>u feed. feeds2 u = Some feed \<and>
      Feeds_Rm ToLower_ASCII [''http://a/rss'', ''http://b/rss''] feeds2 ''http://c/rss'' [] 7 =
        (None, feeds2(u \<mapsto> feed\<lparr>Chats := Chats feed - {7}\<rparr>)))"
proof -
  have l: "ToLower_ASCII [] = []"
    by (simp add: ToLower_ASCII_def)
  have d: "dom feeds2 \<noteq> {} \<and> ''http://c/rss'' \<notin> dom feeds2"
    by (simp add: feeds2_def)
  with Feeds_Rm_empty_query_succeeds
      [where ToLower = ToLower_ASCII and url = "''http://c/rss''" and cid = 7, OF feeds2_dom l]
    feeds2_dom l
  show ?thesis by blast
qed

section \<open>The order of the keys\<close>

text \<open>
  C4, as amended: for two timestamps in the same location (the same offset from UTC) whose
  years lie between 0 and 9999, the key of the one with the earlier whole second compares
  strictly less, whatever the titles; and for the same second the keys compare as the
  titles do.
\<close>

theorem NewArticleKey_order_same_zone:
  assumes "effective_timestamp p1 u1 = Some t" "effective_timestamp p2 u2 = Some u"
    and "offset t = offset u" "years_0_to_9999 t" "years_0_to_9999 u"
  shows "\<exists>k1 k2. NewArticleKey a p1 u1 = Inr k1 \<and> NewArticleKey b p2 u2 = Inr k2 \<and>
     (sec t < sec u \<longrightarrow> k1 < k2) \<and> (sec t = sec u \<longrightarrow> (k1 < k2 \<longleftrightarrow> a < b))"
  using assms
  by (simp add: NewArticleKey_effective key_less_earlier_second key_less_same_second)

theorem NewArticleKey_order_same_zone_witness:
  "\<exists>k1 k2. NewArticleKey ''b'' (Some (Date 2019 7 1 12 0 0 0 0)) None = Inr k1 \<and>
     NewArticleKey ''a'' None (Some (Date 2019 7 1 12 0 1 0 0)) = Inr k2 \<and> k1 < k2"
proof -
  have r: "years_0_to_9999 (Date 2019 7 1 12 0 0 0 0)" "years_0_to_9999 (Date 2019 7 1 12 0 1 0 0)"
    by code_simp+
  have e: "effective_timestamp (Some (Date 2019 7 1 12 0 0 0 0)) None = Some (Date 2019 7 1 12 0 0 0 0)"
    "effective_timestamp None (Some (Date 2019 7 1 12 0 1 0 0)) = Some (Date 2019 7 1 12 0 1 0 0)"
    by (simp_all add: effective_timestamp_def)
  have z: "offset (Date 2019 7 1 12 0 0 0 0) = offset (Date 2019 7 1 12 0 1 0 0)"
    by (simp add: Date_def offset_def)
  have l: "sec (Date 2019 7 1 12 0 0 0 0) < sec (Date 2019 7 1 12 0 1 0 0)"
    by (simp add: Date_def)
  from NewArticleKey_order_same_zone [OF e z r, of "''b''" "''a''"] l
  show ?thesis by blast
qed

text \<open>
  The claim as written fails between locations and below the second. 10:00 UTC is before
  07:00 at five hours west of UTC (12:00 UTC), yet its key is the greater one; and of two
  timestamps 0.1 s and 0.9 s into the same second the titles decide, here against the
  earlier one.
\<close>

theorem NewArticleKey_order_counterexample:
  "Before (Date 2019 7 1 10 0 0 0 0) (Date 2019 7 1 7 0 0 0 (- 18000)) \<and>
   NewArticleKey ''a'' (Some (Date 2019 7 1 10 0 0 0 0)) None = Inr ''2019-07-01T10:00:00Z-a'' \<and>
   NewArticleKey ''a'' (Some (Date 2019 7 1 7 0 0 0 (- 18000))) None =
     Inr ''2019-07-01T07:00:00-05:00-a'' \<and>
   ''2019-07-01T07:00:00-05:00-a'' < ''2019-07-01T10:00:00Z-a'' \<and>
   Before (Date 2019 7 1 12 0 0 100000000 0) (Date 2019 7 1 12 0 0 900000000 0) \<and>
   NewArticleKey ''b'' (Some (Date 2019 7 1 12 0 0 100000000 0)) None =
     Inr ''2019-07-01T12:00:00Z-b'' \<and>
   NewArticleKey ''a'' (Some (Date 2019 7 1 12 0 0 900000000 0)) None =
     Inr ''2019-07-01T12:00:00Z-a'' \<and>
   ''2019-07-01T12:00:00Z-a'' < ''2019-07-01T12:00:00Z-b''"
  by code_simp

section \<open>One channel of one feed in a poll cycle\<close>

text \<open>
  C1, as amended: when every item carries a timestamp, the loop over the items of a feed
  for one channel returns; the key of every item is in the seen set of the channel
  afterwards, whatever its age; a key that was not in the seen set before is queued if and
  only if it sorts strictly after the cutoff key, the key of now - 192 h with the empty
  title; every queued pair is an item of the feed with its key, a key queued once; and the
  queued items are, in the order of the feed, the items that are the first of the feed to
  carry a key that is new and after the cutoff key. In particular an item is marked seen
  and not queued when its effective timestamp has the offset that the cutoff time,
  now - 192 h, has in the location of now (the offset in force at the cutoff time, not the
  one in force now), with years from 0 to 9999, and is in a whole second before the second
  of the cutoff time.
\<close>

theorem update_marks_seen_and_queues_after_cutoff:
  assumes "\<forall>it \<in> set items. PublishedParsed it \<noteq> None \<or> UpdatedParsed it \<noteq> None"
  shows "\<exists>ts q s'. cutoff now = Inr ts \<and> items_loop ts cid items ([], s) = Inr (q, s') \<and>
     (\<forall>it \<in> set items. \<forall>a. item_key it = Inr a \<longrightarrow>
        a \<in> seen_of s' cid \<and>
        (a \<notin> seen_of s cid \<longrightarrow> (a \<in> fst ` set q \<longleftrightarrow> ts < a)) \<and>
        (\<forall>t. effective_timestamp (PublishedParsed it) (UpdatedParsed it) = Some t \<and>
             offset t = offset (Add now (- 192 * Hour)) \<and> years_0_to_9999 t \<and>
             years_0_to_9999 (Add now (- 192 * Hour)) \<and>
             sec t < sec (Add now (- 192 * Hour)) \<longrightarrow> a \<notin> fst ` set q)) \<and>
     (\<forall>(a, it) \<in> set q. it \<in> set items \<and> item_key it = Inr a \<and> a \<notin> seen_of s cid \<and> ts < a) \<and>
     distinct (map fst q) \<and>
     map snd q =
       map (\<lambda>i. items ! i) [i \<leftarrow> [0..<length items]. first_new ts (seen_of s cid) items i]"
proof -
  define ts where "ts = Format_RFC3339 (Add now (- 192 * Hour)) @ ''-''"
  from items_loop_queue_order [OF assms, of ts cid "[]" s] obtain q0 s0 where
    r0: "items_loop ts cid items ([], s) = Inr (q0, s0)"
    and o0: "map snd q0 =
       map (\<lambda>i. items ! i) [i \<leftarrow> [0..<length items]. first_new ts (seen_of s cid) items i]"
    by auto
  from items_loop_queue [OF assms, of ts cid "[]" s] obtain q s' where
    r: "items_loop ts cid items ([], s) = Inr (q, s')"
    and sn: "seen_of s' cid = seen_of s cid \<union> keys_of items"
    and f: "fst ` set q = {a \<in> keys_of items. a \<notin> seen_of s cid \<and> ts < a}"
    and d: "distinct (map fst q)"
    and m: "\<forall>(a, it) \<in> set q. it \<in> set items \<and> item_key it = Inr a"
    by auto
  have old: "a \<notin> fst ` set q"
    if "item_key it = Inr a" "effective_timestamp (PublishedParsed it) (UpdatedParsed it) = Some t"
      "offset t = offset (Add now (- 192 * Hour))" "years_0_to_9999 t"
      "years_0_to_9999 (Add now (- 192 * Hour))"
      "sec t < sec (Add now (- 192 * Hour))" for it a t
  proof -
    have "a = Format_RFC3339 t @ CHR ''-'' # Item_Title it"
      using that(1) item_key_effective [OF that(2)] by simp
    moreover have "Format_RFC3339 t @ CHR ''-'' # Item_Title it
        < Format_RFC3339 (Add now (- 192 * Hour)) @ CHR ''-'' # []"
      using that by (intro key_less_earlier_second) simp_all
    ultimately have "a < ts" by (simp add: ts_def)
    then have "\<not> ts < a" by simp
    then show ?thesis by (simp add: f)
  qed
  have "\<forall>it \<in> set items. \<forall>a. item_key it = Inr a \<longrightarrow>
        a \<in> seen_of s' cid \<and>
        (a \<notin> seen_of s cid \<longrightarrow> (a \<in> fst ` set q \<longleftrightarrow> ts < a)) \<and>
        (\<forall>t. effective_timestamp (PublishedParsed it) (UpdatedParsed it) = Some t \<and>
             offset t = offset (Add now (- 192 * Hour)) \<and> years_0_to_9999 t \<and>
             years_0_to_9999 (Add now (- 192 * Hour)) \<and>
             sec t < sec (Add now (- 192 * Hour)) \<longrightarrow> a \<notin> fst ` set q)"
  proof (intro ballI allI impI conjI)
    fix it a assume i: "it \<in> set items" "item_key it = Inr a"
    then have k: "a \<in> keys_of items" by (auto simp: keys_of_def)
    then show "a \<in> seen_of s' cid" by (simp add: sn)
    show "(a \<in> fst ` set q) = (ts < a)" if "a \<notin> seen_of s cid"
      using that k by (simp add: f)
    show "a \<notin> fst ` set q"
      if "effective_timestamp (PublishedParsed it) (UpdatedParsed it) = Some t \<and>
             offset t = offset (Add now (- 192 * Hour)) \<and> years_0_to_9999 t \<and>
             years_0_to_9999 (Add now (- 192 * Hour)) \<and>
             sec t < sec (Add now (- 192 * Hour))" for t
      using old [of it a t] i that by blast
  qed
  moreover have "\<forall>(a, it) \<in> set q. it \<in> set items \<and> item_key it = Inr a \<and>
      a \<notin> seen_of s cid \<and> ts < a"
  proof -
    have "a \<notin> seen_of s cid \<and> ts < a" if "(a, it) \<in> set q" for a it
    proof -
      from that have "a \<in> fst ` set q" by force
      then show ?thesis by (simp add: f)
    qed
    with m show ?thesis by blast
  qed
  moreover have "cutoff now = Inr ts"
    by (simp add: cutoff_Inr ts_def)
  moreover have "map snd q =
       map (\<lambda>i. items ! i) [i \<leftarrow> [0..<length items]. first_new ts (seen_of s cid) items i]"
    using r r0 o0 by simp
  ultimately show ?thesis using r d by blast
qed

text \<open>
  An instance across a change of offset: now is 2019-04-03T13:00:00+01:00 in a location
  that was on UTC until 31 March, so the cutoff key is that of 2019-03-26T12:00:00Z. The
  item of 20 March is marked seen and not queued; of the two items that carry the key of
  1 April, the first is queued and the second is not.
\<close>

theorem update_marks_seen_and_queues_after_cutoff_witness:
  "\<exists>ts q s'. cutoff (In (Date 2019 4 3 12 0 0 0 0) London_2019) = Inr ts \<and>
     items_loop ts 7 [item_April, item_March, item_April_again] ([], Map.empty) = Inr (q, s') \<and>
     offset (In (Date 2019 4 3 12 0 0 0 0) London_2019) = 3600 \<and>
     offset (Add (In (Date 2019 4 3 12 0 0 0 0) London_2019) (- 192 * Hour)) = 0 \<and>
     ''2019-03-20T09:00:00Z-Old'' \<in> seen_of s' 7 \<and>
     ''2019-03-20T09:00:00Z-Old'' \<notin> fst ` set q \<and>
     ''2019-04-01T09:00:00Z-New'' \<in> seen_of s' 7 \<and>
     ''2019-04-01T09:00:00Z-New'' \<in> fst ` set q \<and>
     map snd q = [item_April]"
proof -
  define now where "now = In (Date 2019 4 3 12 0 0 0 0) London_2019"
  define items where "items = [item_April, item_March, item_April_again]"
  have ts: "\<forall>it \<in> set items. PublishedParsed it \<noteq> None \<or> UpdatedParsed it \<noteq> None"
    by (simp add: items_def item_April_def item_March_def item_April_again_def)
  have kO: "item_key item_March = Inr ''2019-03-20T09:00:00Z-Old''"
    and kN: "item_key item_April = Inr ''2019-04-01T09:00:00Z-New''"
    and kA: "item_key item_April_again = Inr ''2019-04-01T09:00:00Z-New''"
    and c: "cutoff now = Inr ''2019-03-26T12:00:00Z-''"
    and z: "offset now = 3600" "offset (Add now (- 192 * Hour)) = 0"
    unfolding now_def by code_simp+
  have eO: "effective_timestamp (PublishedParsed item_March) (UpdatedParsed item_March) =
      Some (Date 2019 3 20 9 0 0 0 0)"
    by (simp add: item_March_def effective_timestamp_def)
  have hO: "offset (Date 2019 3 20 9 0 0 0 0) = offset (Add now (- 192 * Hour)) \<and>
      years_0_to_9999 (Date 2019 3 20 9 0 0 0 0) \<and> years_0_to_9999 (Add now (- 192 * Hour)) \<and>
      sec (Date 2019 3 20 9 0 0 0 0) < sec (Add now (- 192 * Hour))"
    unfolding now_def by code_simp
  have lt: "''2019-03-26T12:00:00Z-'' < ''2019-04-01T09:00:00Z-New''"
    and nlt: "\<not> ''2019-03-26T12:00:00Z-'' < ''2019-03-20T09:00:00Z-Old''"
    by code_simp+
  from update_marks_seen_and_queues_after_cutoff [OF ts, of now 7 Map.empty]
  obtain t q s' where
    r: "cutoff now = Inr t" "items_loop t 7 items ([], Map.empty) = Inr (q, s')"
    and p: "\<forall>it \<in> set items. \<forall>a. item_key it = Inr a \<longrightarrow>
        a \<in> seen_of s' 7 \<and>
        (a \<notin> seen_of Map.empty 7 \<longrightarrow> (a \<in> fst ` set q \<longleftrightarrow> t < a)) \<and>
        (\<forall>u. effective_timestamp (PublishedParsed it) (UpdatedParsed it) = Some u \<and>
             offset u = offset (Add now (- 192 * Hour)) \<and> years_0_to_9999 u \<and>
             years_0_to_9999 (Add now (- 192 * Hour)) \<and>
             sec u < sec (Add now (- 192 * Hour)) \<longrightarrow> a \<notin> fst ` set q)"
    and o: "map snd q =
       map (\<lambda>i. items ! i) [i \<leftarrow> [0..<length items]. first_new t (seen_of Map.empty 7) items i]"
    by blast
  from r c have t: "t = ''2019-03-26T12:00:00Z-''" by simp
  have a: "''2019-03-20T09:00:00Z-Old'' \<in> seen_of s' 7 \<and>
      ''2019-03-20T09:00:00Z-Old'' \<notin> fst ` set q"
    using p kO eO hO by (auto simp: items_def)
  have b: "''2019-04-01T09:00:00Z-New'' \<in> seen_of s' 7 \<and>
      ''2019-04-01T09:00:00Z-New'' \<in> fst ` set q"
    using p kN lt unfolding t by (auto simp: seen_of_def items_def)
  have d: "map snd q = [item_April]"
    unfolding o items_def t
    by (simp only: filter_first_new_Cons [OF kN] filter_first_new_Cons [OF kO]
        filter_first_new_Cons [OF kA]) (simp add: lt nlt seen_of_def)
  show ?thesis
    apply (rule exI [of _ t], rule exI [of _ q], rule exI [of _ s'])
    apply (intro conjI)
            apply (rule r(1) [unfolded now_def])
           apply (rule r(2) [unfolded items_def])
          apply (rule z(1) [unfolded now_def])
         apply (rule z(2) [unfolded now_def])
        apply (rule a [THEN conjunct1])
       apply (rule a [THEN conjunct2])
      apply (rule b [THEN conjunct1])
     apply (rule b [THEN conjunct2])
    apply (rule d)
    done
qed

text \<open>
  The claim as written fails for an item older than the cutoff by less than a second, and
  for an item in UTC against a clock west of UTC: both are older than now - 192 h, both
  are sent. First, now is 2019-07-09T12:00:00.5Z and the item is of 2019-07-01T12:00:00Z;
  second, now is 2019-07-09T07:00:00-05:00 and the item is of 2019-07-01T10:00:00Z, two
  hours before the cutoff.
\<close>

theorem update_queues_item_older_than_cutoff_counterexample:
  "Before (Date 2019 7 1 12 0 0 0 0) (Add (Date 2019 7 9 12 0 0 500000000 0) (- 192 * Hour)) \<and>
   (case update
       (\<lambda>u. Some \<lparr>Parsed_Title = ''X'', Items = [\<lparr>Item_Title = ''Post'',
          PublishedParsed = Some (Date 2019 7 1 12 0 0 0 0), UpdatedParsed = None,
          Link = ''http://x/1''\<rparr>]\<rparr>)
       (\<lambda>f. [7]) [''http://x/rss''] (Date 2019 7 9 12 0 0 500000000 0)
       [''http://x/rss'' \<mapsto> \<lparr>Chats = {7}, Title = ''X''\<rparr>] Map.empty of
     Inr (sends, s) \<Rightarrow> sends = [(7, ''http://x/1'')]
   | Inl e \<Rightarrow> False) \<and>
   Before (Date 2019 7 1 10 0 0 0 0) (Add (Date 2019 7 9 7 0 0 0 (- 18000)) (- 192 * Hour)) \<and>
   (case update
       (\<lambda>u. Some \<lparr>Parsed_Title = ''X'', Items = [\<lparr>Item_Title = ''Post'',
          PublishedParsed = Some (Date 2019 7 1 10 0 0 0 0), UpdatedParsed = None,
          Link = ''http://x/2''\<rparr>]\<rparr>)
       (\<lambda>f. [7]) [''http://x/rss''] (Date 2019 7 9 7 0 0 0 (- 18000))
       [''http://x/rss'' \<mapsto> \<lparr>Chats = {7}, Title = ''X''\<rparr>] Map.empty of
     Inr (sends, s) \<Rightarrow> sends = [(7, ''http://x/2'')]
   | Inl e \<Rightarrow> False)"
  by code_simp

text \<open>
  C3, as amended: for one channel of one feed, the messages sent are the links of the
  queued items in strictly ascending order of their keys: the queue sorted by key, which
  is the only arrangement of the queue in ascending key order, so the result does not
  depend on how \<^verbatim>\<open>sort.Slice\<close> treats equal keys. The queues of different feeds for the
  same channel are sorted and sent apart.
\<close>

theorem chat_step_sends_sorted_queue:
  assumes "\<forall>it \<in> set items. PublishedParsed it \<noteq> None \<or> UpdatedParsed it \<noteq> None"
  shows "\<exists>q s'. items_loop ts cid items ([], s) = Inr (q, s') \<and>
     chat_step ts items cid (sends, s) =
       Inr (sends @ map (\<lambda>(a, it). (cid, Link it)) (sort_Slice q), s') \<and>
     mset (sort_Slice q) = mset q \<and>
     sorted_wrt (<) (map fst (sort_Slice q)) \<and>
     (\<forall>out. mset out = mset q \<and> sorted (map fst out) \<longrightarrow> out = sort_Slice q)"
proof -
  from items_loop_queue [OF assms, of ts cid "[]" s] obtain q s' where
    r: "items_loop ts cid items ([], s) = Inr (q, s')"
    and d: "distinct (map fst q)"
    by auto
  have "chat_step ts items cid (sends, s) =
       Inr (sends @ map (\<lambda>(a, it). (cid, Link it)) (sort_Slice q), s')"
    by (simp add: chat_step_def r)
  moreover have "mset (sort_Slice q) = mset q"
    by (simp add: sort_Slice_def)
  moreover have "\<forall>out. mset out = mset q \<and> sorted (map fst out) \<longrightarrow> out = sort_Slice q"
    using sort_key_distinct_unique [OF d] by (simp add: sort_Slice_def)
  ultimately show ?thesis
    using r sort_Slice_strict [OF d] by blast
qed

theorem chat_step_sends_sorted_queue_witness:
  "\<exists>q s'. items_loop ''2019-07-01T12:00:00Z-'' 7 [item_New, item_Old, item_Mid] ([], Map.empty) =
       Inr (q, s') \<and>
     chat_step ''2019-07-01T12:00:00Z-'' [item_New, item_Old, item_Mid] 7 ([], Map.empty) =
       Inr ([] @ map (\<lambda>(a, it). (7, Link it)) (sort_Slice q), s') \<and>
     mset (sort_Slice q) = mset q \<and>
     sorted_wrt (<) (map fst (sort_Slice q))"
proof -
  have ts: "\<forall>it \<in> set [item_New, item_Old, item_Mid].
      PublishedParsed it \<noteq> None \<or> UpdatedParsed it \<noteq> None"
    by (simp add: item_New_def item_Old_def item_Mid_def)
  from chat_step_sends_sorted_queue [OF ts, of "''2019-07-01T12:00:00Z-''" 7 Map.empty "[]"]
  show ?thesis by blast
qed

text \<open>
  The claim as written, for the whole of a channel's cycle, fails for a channel with two
  feeds: with the task of the first feed done before the task of the second, the channel
  receives the newer item of the first feed before the older item of the second.
\<close>

theorem update_two_feeds_not_ascending_counterexample:
  "(case update two_feeds (\<lambda>f. [7]) [''http://x/rss'', ''http://y/rss'']
       (Date 2019 7 9 12 0 0 0 0)
       [''http://x/rss'' \<mapsto> \<lparr>Chats = {7}, Title = ''X''\<rparr>,
        ''http://y/rss'' \<mapsto> \<lparr>Chats = {7}, Title = ''Y''\<rparr>] Map.empty of
     Inr (sends, s) \<Rightarrow> sends = [(7, ''http://x/new''), (7, ''http://y/mid'')]
   | Inl e \<Rightarrow> False) \<and>
   item_key item_New = Inr ''2019-07-08T10:30:00Z-New'' \<and> Link item_New = ''http://x/new'' \<and>
   item_key item_Mid = Inr ''2019-07-05T09:00:00Z-Mid'' \<and> Link item_Mid = ''http://y/mid'' \<and>
   ''2019-07-05T09:00:00Z-Mid'' < ''2019-07-08T10:30:00Z-New''"
  by code_simp

section \<open>Persistence round trip of a seen set\<close>

lemma mark_all_Some: "mark_all (Some S) xs = Inr (Some (S \<union> set xs))"
  by (induction xs arbitrary: S) (simp_all add: Seen_Mark_def)

lemma mark_all_None: "xs \<noteq> [] \<Longrightarrow> mark_all None xs = Inl NilMapAssignment"
  by (cases xs) (simp_all add: Seen_Mark_def)

lemma unmarshal_strings_encoded:
  "unmarshal_strings (map (\<lambda>a. JString (f a)) xs) = Inr (map f xs)"
  by (induction xs) simp_all

lemma encode_string_ascii:
  "\<forall>c \<in> set s. (of_char c :: nat) < 128 \<Longrightarrow> encode_string 0 s = s"
  by (induction s) (simp_all add: DecodeRuneInString_size_def first_byte_def)

lemma Seen_roundtrip_allocated:
  assumes "set order = S" and "\<forall>a \<in> S. \<forall>c \<in> set a. (of_char c :: nat) < 128"
  shows "Seen_UnmarshalJSON (Some {}) (Seen_MarshalJSON order (Some S)) = Inr (Some S)"
proof -
  from assms have f: "[a \<leftarrow> order. Seen_Seen (Some S) a] = order"
    by (auto simp: Seen_Seen_def)
  from assms have "map (encode_string 0) order = order"
    by (auto simp: encode_string_ascii map_idI)
  then show ?thesis
    using assms(1)
    by (simp add: Seen_UnmarshalJSON_def Seen_MarshalJSON_def f unmarshal_strings_encoded
        mark_all_Some)
qed

lemma Seen_roundtrip_nil:
  assumes "set order = S" "S \<noteq> {}"
  shows "decode_Seen (Seen_MarshalJSON order (Some S)) = Inl NilMapAssignment"
proof -
  from assms have "order \<noteq> []" by auto
  moreover from assms have "[a \<leftarrow> order. Seen_Seen (Some S) a] = order"
    by (auto simp: Seen_Seen_def)
  ultimately show ?thesis
    by (simp add: decode_Seen_def Seen_UnmarshalJSON_def Seen_MarshalJSON_def
        unmarshal_strings_encoded mark_all_None)
qed

text \<open>
  C8 on the variant that serializes a seen set as an array: the set with the one key
  \<^verbatim>\<open>2019-07-01T12:00:00Z-Post\<close> is written as the array of that string; decoding the array
  as \<^verbatim>\<open>encoding/json\<close> does, into the nil map of a new entry, panics on the assignment, so
  the set is not restored; the same array decoded into an allocated empty map gives the
  set back.
\<close>

theorem Seen_roundtrip_panics_on_nil_map:
  "Seen_MarshalJSON [''2019-07-01T12:00:00Z-Post''] (Some {''2019-07-01T12:00:00Z-Post''}) =
     JArray [JString ''2019-07-01T12:00:00Z-Post''] \<and>
   decode_Seen (JArray [JString ''2019-07-01T12:00:00Z-Post'']) = Inl NilMapAssignment \<and>
   Seen_UnmarshalJSON (Some {}) (JArray [JString ''2019-07-01T12:00:00Z-Post'']) =
     Inr (Some {''2019-07-01T12:00:00Z-Post''})"
proof -
  have e: "encode_string 0 ''2019-07-01T12:00:00Z-Post'' = ''2019-07-01T12:00:00Z-Post''"
    by (rule encode_string_ascii) simp
  show ?thesis
    by (simp add: Seen_MarshalJSON_def Seen_Seen_def decode_Seen_def Seen_UnmarshalJSON_def
        Seen_Mark_def e del: encode_string.simps)
qed

end
